theory Spec2Isabelle
  imports Main "HOL-Library.Multiset"
begin

section \<open>The binary search tree of one partition (class HashTree)\<close>

text \<open>
  The repository holds two source files with the same classes \<open>HashTree\<close> and \<open>Cache\<close>:
  \<^verbatim>\<open>hashcache.cc\<close> and a second, unnamed file. They differ in the test that \<open>Cache::put\<close>
  makes before it evicts (and in diagnostics that are printed); everything else below is
  the code of both.

  A \<open>HashTree*\<close> is either \<open>nullptr\<close> or points to a node with a key, a value and two
  child pointers. Each node is owned by exactly one parent, so a pointer is modelled by the
  tree it points to: \<open>Leaf\<close> is \<open>nullptr\<close>. The selectors carry the names of the fields;
  on \<open>Leaf\<close> they are unspecified, as a read through a null pointer is.
  The key type is linearly ordered (the cache is used with \<open>long\<close> keys).
\<close>

datatype ('k, 'v) HashTree =
  Leaf
  | Node (m_key: 'k) (m_val: 'v) (m_left: "('k, 'v) HashTree") (m_right: "('k, 'v) HashTree")

text \<open>\<open>HashTree::insertNode\<close>: a key less-or-equal to the node's key goes left.\<close>

fun insertNode :: "('k::linorder, 'v) HashTree \<Rightarrow> 'k \<Rightarrow> 'v \<Rightarrow> ('k, 'v) HashTree" where
  "insertNode Leaf key val = Node key val Leaf Leaf"
| "insertNode (Node k v l r) key val =
     (if k \<ge> key then Node k v (insertNode l key val) r
      else Node k v l (insertNode r key val))"

text \<open>
  \<open>HashTree::getVal\<close> writes the value found through the reference \<open>val\<close> and returns
  whether the key was found: the model takes the caller's \<open>val\<close> and returns the flag with
  the new content of \<open>val\<close>.
\<close>

fun getVal :: "('k::linorder, 'v) HashTree \<Rightarrow> 'k \<Rightarrow> 'v \<Rightarrow> bool \<times> 'v" where
  "getVal Leaf key val = (False, val)"
| "getVal (Node k v l r) key val =
     (if k = key then (True, v)
      else if k > key then getVal l key val
      else getVal r key val)"

text \<open>\<open>HashTree::getSmallestNode\<close>: follow the left pointers while there is one.\<close>

fun getSmallestNode :: "('k, 'v) HashTree \<Rightarrow> ('k, 'v) HashTree" where
  "getSmallestNode Leaf = Leaf"
| "getSmallestNode (Node k v Leaf r) = Node k v Leaf r"
| "getSmallestNode (Node k v (Node lk lv ll lr) r) = getSmallestNode (Node lk lv ll lr)"

text \<open>
  \<open>HashTree::remove\<close>. In the last case both children are present, so the in-order
  successor is a node and reading its fields is safe (lemma \<open>getSmallestNode_Node\<close>).
  The key is passed by reference, and in the recursive call of the last case, as in the
  call that \<open>Cache::removeLRU\<close> makes, it refers to the key field of a node of the tree.
  No path reads the reference after that node has been assigned to or deleted, so the key
  is passed by value here.
\<close>

fun HashTree_remove :: "('k::linorder, 'v) HashTree \<Rightarrow> 'k \<Rightarrow> ('k, 'v) HashTree" where
  "HashTree_remove Leaf key = Leaf"
| "HashTree_remove (Node k v l r) key =
     (if k > key then Node k v (HashTree_remove l key) r
      else if k < key then Node k v l (HashTree_remove r key)
      else if l = Leaf then r
      else if r = Leaf then l
      else (let inOrderSuccessor = getSmallestNode r
            in Node (m_key inOrderSuccessor) (m_val inOrderSuccessor) l
                 (HashTree_remove r (m_key inOrderSuccessor))))"

text \<open>\<open>HashTree::seekWithComparator\<close>: both subtrees are searched, then the node itself.\<close>

fun seekWithComparator ::
  "('k, 'v) HashTree \<Rightarrow> (('k, 'v) HashTree \<Rightarrow> ('k, 'v) HashTree \<Rightarrow> ('k, 'v) HashTree)
     \<Rightarrow> ('k, 'v) HashTree" where
  "seekWithComparator Leaf comparator = Leaf"
| "seekWithComparator (Node k v l r) comparator =
     (let left = seekWithComparator l comparator;
          right = seekWithComparator r comparator
      in comparator (comparator left right) (Node k v l r))"

section \<open>The cache (class Cache)\<close>

text \<open>
  The cache is an array of \<open>NUM_BUCKETS\<close> tree roots and the counter \<open>cacheSize\<close>. The
  values stored in a tree are pairs of the caller's value and the time of the write in
  milliseconds. The mutexes are left out: the model is of sequential executions. The
  counter is an \<open>atomic<long>\<close> that starts at zero and moves by one per call, so no run
  that can be carried out takes it out of the range of \<open>long\<close>; it is modelled as an
  unbounded integer, as are the timestamps.
\<close>

record ('k, 'v) Cache =
  buckets :: "('k, 'v \<times> int) HashTree list"
  cacheSize :: int

text \<open>
  The two compile-time constants of the class. The functions below take the number of
  buckets \<open>nb\<close> and the capacity \<open>cap\<close> as arguments, so that the theorems hold for every
  configuration, the one of the source included.
\<close>

definition NUM_BUCKETS :: nat where
  "NUM_BUCKETS = 1024"

definition CACHE_SIZE :: int where
  "CACHE_SIZE = 1024"

text \<open>
  \<open>Cache::hashFunc\<close>. \<open>std::hash<K>\<close> is a parameter \<open>hashVal\<close> of the model; the result is
  an index below \<open>nb\<close>.
\<close>

definition hashFunc :: "nat \<Rightarrow> ('k \<Rightarrow> nat) \<Rightarrow> 'k \<Rightarrow> nat" where
  "hashFunc nb hashVal key = hashVal key mod nb"

text \<open>The constructor: every bucket is \<open>nullptr\<close> and the counter is zero.\<close>

definition Cache_init :: "nat \<Rightarrow> ('k, 'v) Cache" where
  "Cache_init nb = \<lparr>buckets = replicate nb Leaf, cacheSize = 0\<rparr>"

text \<open>
  \<open>Cache::get\<close>. The local \<open>valWrapper\<close> is value-initialised: \<open>dflt\<close> stands for \<open>V()\<close>. Its
  first component is assigned to the caller's \<open>val\<close> whatever \<open>getVal\<close> returned, so the
  content \<open>val\<close> had before the call does not reach the result.
\<close>

definition get :: "nat \<Rightarrow> ('k::linorder \<Rightarrow> nat) \<Rightarrow> 'v \<Rightarrow> 'k \<Rightarrow> 'v \<Rightarrow> ('k, 'v) Cache \<Rightarrow> bool \<times> 'v" where
  "get nb hashVal dflt key val c =
     (let hv = hashFunc nb hashVal key;
          bucket = buckets c ! hv;
          valWrapper = (dflt, 0);
          (ret, valWrapper') = getVal bucket key valWrapper
      in (ret, fst valWrapper'))"

text \<open>\<open>Cache::remove\<close>: the counter is decremented and \<open>true\<close> is returned on every path.\<close>

definition Cache_remove ::
  "nat \<Rightarrow> ('k::linorder \<Rightarrow> nat) \<Rightarrow> 'k \<Rightarrow> ('k, 'v) Cache \<Rightarrow> bool \<times> ('k, 'v) Cache" where
  "Cache_remove nb hashVal key c =
     (let hv = hashFunc nb hashVal key;
          bucket = buckets c ! hv
      in (True, c\<lparr>buckets := (buckets c)[hv := HashTree_remove bucket key],
                   cacheSize := cacheSize c - 1\<rparr>))"

text \<open>The comparator of \<open>Cache::removeLRU\<close> (the lambda \<open>func\<close>): the older of two nodes.\<close>

definition func ::
  "('k, 'v \<times> int) HashTree \<Rightarrow> ('k, 'v \<times> int) HashTree \<Rightarrow> ('k, 'v \<times> int) HashTree" where
  "func left right =
     (if left = Leaf then right
      else if right = Leaf then left
      else if snd (m_val left) < snd (m_val right) then left else right)"

text \<open>The loop of \<open>Cache::removeLRU\<close> over the buckets, from the first to the last.\<close>

fun removeLRU_loop ::
  "('k, 'v \<times> int) HashTree list \<Rightarrow> ('k, 'v \<times> int) HashTree \<Rightarrow> ('k, 'v \<times> int) HashTree" where
  "removeLRU_loop [] oldest = oldest"
| "removeLRU_loop (bucket # rest) oldest =
     (let currentOldest = seekWithComparator bucket func
      in if currentOldest = Leaf then removeLRU_loop rest oldest
         else if oldest = Leaf then removeLRU_loop rest currentOldest
         else if snd (m_val currentOldest) < snd (m_val oldest)
           then removeLRU_loop rest currentOldest
         else removeLRU_loop rest oldest)"

text \<open>
  \<open>Cache::removeLRU\<close>. After the loop the key and the timestamp of \<open>oldest\<close> are printed
  and the key is removed; \<open>oldest\<close> is read without a test, so a null \<open>oldest\<close> is the
  error \<open>NullPointerDereference\<close>. The function is declared to return \<open>bool\<close> and ends
  without a \<open>return\<close> statement: control that reaches the end of it, after the call of
  \<open>remove\<close>, flows off the end of a function that returns a value, which is undefined
  behaviour whether or not the caller uses the value. This is the error \<open>MissingReturn\<close>;
  it holds the state of the cache at that point. So \<open>removeLRU\<close> never returns normally.
\<close>

datatype ('k, 'v) error = NullPointerDereference | MissingReturn "('k, 'v) Cache"

definition removeLRU ::
  "nat \<Rightarrow> ('k::linorder \<Rightarrow> nat) \<Rightarrow> ('k, 'v) Cache \<Rightarrow> ('k, 'v) error + ('k, 'v) Cache" where
  "removeLRU nb hashVal c =
     (let oldest = removeLRU_loop (take nb (buckets c)) Leaf
      in if oldest = Leaf then Inl NullPointerDereference
         else Inl (MissingReturn (snd (Cache_remove nb hashVal (m_key oldest) c))))"

text \<open>
  \<open>Cache::put\<close> of \<^verbatim>\<open>hashcache.cc\<close>. \<open>fetch_add\<close> returns the value the counter had before
  the increment. The clock is read after the eviction; its reading is the argument
  \<open>currentTimeMillis\<close>. An error of \<open>removeLRU\<close> ends the \<open>put\<close>.
\<close>

definition put ::
  "nat \<Rightarrow> int \<Rightarrow> ('k::linorder \<Rightarrow> nat) \<Rightarrow> int \<Rightarrow> 'k \<Rightarrow> 'v \<Rightarrow> ('k, 'v) Cache
     \<Rightarrow> ('k, 'v) error + (bool \<times> ('k, 'v) Cache)" where
  "put nb cap hashVal currentTimeMillis key val c =
     (let old = cacheSize c;
          c1 = c\<lparr>cacheSize := old + 1\<rparr>
      in case (if old \<ge> cap then removeLRU nb hashVal c1 else Inr c1) of
           Inl e \<Rightarrow> Inl e
         | Inr c2 \<Rightarrow>
             (let hv = hashFunc nb hashVal key;
                  bucket = buckets c2 ! hv
              in Inr (True, c2\<lparr>buckets := (buckets c2)
                        [hv := insertNode bucket key (val, currentTimeMillis)]\<rparr>)))"

text \<open>
  \<open>Cache::put\<close> of the second source file, which tests \<open>fetch_add(1) > CACHE_SIZE\<close>; the
  rest of the function is the same.
\<close>

definition put_part_000 ::
  "nat \<Rightarrow> int \<Rightarrow> ('k::linorder \<Rightarrow> nat) \<Rightarrow> int \<Rightarrow> 'k \<Rightarrow> 'v \<Rightarrow> ('k, 'v) Cache
     \<Rightarrow> ('k, 'v) error + (bool \<times> ('k, 'v) Cache)" where
  "put_part_000 nb cap hashVal currentTimeMillis key val c =
     (let old = cacheSize c;
          c1 = c\<lparr>cacheSize := old + 1\<rparr>
      in case (if old > cap then removeLRU nb hashVal c1 else Inr c1) of
           Inl e \<Rightarrow> Inl e
         | Inr c2 \<Rightarrow>
             (let hv = hashFunc nb hashVal key;
                  bucket = buckets c2 ! hv
              in Inr (True, c2\<lparr>buckets := (buckets c2)
                        [hv := insertNode bucket key (val, currentTimeMillis)]\<rparr>)))"

text \<open>
  A sequential execution is a list of calls, each \<open>put\<close> with the reading of the clock it
  makes. The run stops at the first error.
\<close>

datatype ('k, 'v) call = Put 'k 'v int | Remove 'k

fun run ::
  "nat \<Rightarrow> int \<Rightarrow> ('k::linorder \<Rightarrow> nat) \<Rightarrow> ('k, 'v) call list \<Rightarrow> ('k, 'v) Cache
     \<Rightarrow> ('k, 'v) error + ('k, 'v) Cache" where
  "run nb cap hashVal [] c = Inr c"
| "run nb cap hashVal (Put key val t # calls) c =
     (case put nb cap hashVal t key val c of
        Inl e \<Rightarrow> Inl e
      | Inr (ok, c') \<Rightarrow> run nb cap hashVal calls c')"
| "run nb cap hashVal (Remove key # calls) c =
     run nb cap hashVal calls (snd (Cache_remove nb hashVal key c))"

section \<open>Notions of the specification\<close>

text \<open>The entries of a tree in order, its keys, and the node pointers it holds.\<close>

fun nodes :: "('k, 'v) HashTree \<Rightarrow> ('k \<times> 'v) list" where
  "nodes Leaf = []"
| "nodes (Node k v l r) = nodes l @ (k, v) # nodes r"

fun keys :: "('k, 'v) HashTree \<Rightarrow> 'k set" where
  "keys Leaf = {}"
| "keys (Node k v l r) = insert k (keys l \<union> keys r)"

fun subtrees :: "('k, 'v) HashTree \<Rightarrow> ('k, 'v) HashTree set" where
  "subtrees Leaf = {}"
| "subtrees (Node k v l r) = insert (Node k v l r) (subtrees l \<union> subtrees r)"

text \<open>
  The ordering invariant: the keys of the left subtree are less-or-equal to the key of the
  node, those of the right subtree strictly greater.
\<close>

fun bst :: "('k::linorder, 'v) HashTree \<Rightarrow> bool" where
  "bst Leaf = True"
| "bst (Node k v l r) = ((\<forall>x \<in> keys l. x \<le> k) \<and> (\<forall>x \<in> keys r. k < x) \<and> bst l \<and> bst r)"

text \<open>The weaker ordering, in which a key of the right subtree may equal the node's.\<close>

fun bst_weak :: "('k::linorder, 'v) HashTree \<Rightarrow> bool" where
  "bst_weak Leaf = True"
| "bst_weak (Node k v l r) =
     ((\<forall>x \<in> keys l. x \<le> k) \<and> (\<forall>x \<in> keys r. k \<le> x) \<and> bst_weak l \<and> bst_weak r)"

text \<open>The node at which the descent of \<open>getVal\<close> stops; \<open>Leaf\<close> when it finds none.\<close>

fun findNode :: "('k::linorder, 'v) HashTree \<Rightarrow> 'k \<Rightarrow> ('k, 'v) HashTree" where
  "findNode Leaf key = Leaf"
| "findNode (Node k v l r) key =
     (if k = key then Node k v l r
      else if k > key then findNode l key
      else findNode r key)"

text \<open>All keys stored in the cache.\<close>

definition Cache_keys :: "('k, 'v) Cache \<Rightarrow> 'k set" where
  "Cache_keys c = \<Union> (keys ` set (buckets c))"

text \<open>The ordering of a tree whose keys are pairwise distinct: both bounds are strict.\<close>

fun sbst :: "('k::linorder, 'v) HashTree \<Rightarrow> bool" where
  "sbst Leaf = True"
| "sbst (Node k v l r) = ((\<forall>x \<in> keys l. x < k) \<and> (\<forall>x \<in> keys r. k < x) \<and> sbst l \<and> sbst r)"

text \<open>
  The entries (key, value, timestamp) stored in the cache, and the invariant of a cache
  without duplicate keys: every tree is ordered with distinct keys and holds only keys
  that hash to its bucket.
\<close>

definition Cache_entries :: "('k, 'v) Cache \<Rightarrow> ('k \<times> 'v \<times> int) set" where
  "Cache_entries c = (\<Union>i < length (buckets c). set (nodes (buckets c ! i)))"

definition Cache_inv :: "nat \<Rightarrow> ('k::linorder \<Rightarrow> nat) \<Rightarrow> ('k, 'v) Cache \<Rightarrow> bool" where
  "Cache_inv nb hashVal c \<longleftrightarrow>
     length (buckets c) = nb \<and> 0 < nb \<and>
     (\<forall>i < nb. sbst (buckets c ! i) \<and> (\<forall>k \<in> keys (buckets c ! i). hashFunc nb hashVal k = i))"

text \<open>The call \<open>put(key, val)\<close> made when the clock reads \<open>t\<close>.\<close>

fun put_call :: "'k \<times> 'v \<times> int \<Rightarrow> ('k, 'v) call" where
  "put_call (key, val, t) = Put key val t"

text \<open>
  The key that the eviction of a \<open>put\<close> called in state \<open>c\<close> removes, if that \<open>put\<close> evicts;
  the keys evicted in the course of a run; and a bucket as the eviction of a \<open>put\<close> leaves
  it.
\<close>

definition evictee :: "nat \<Rightarrow> int \<Rightarrow> ('k, 'v) Cache \<Rightarrow> 'k option" where
  "evictee nb cap c =
     (if cacheSize c \<ge> cap
      then (case removeLRU_loop (take nb (buckets c)) Leaf of
              Leaf \<Rightarrow> None
            | Node k v l r \<Rightarrow> Some k)
      else None)"

fun evictions ::
  "nat \<Rightarrow> int \<Rightarrow> ('k::linorder \<Rightarrow> nat) \<Rightarrow> ('k, 'v) call list \<Rightarrow> ('k, 'v) Cache \<Rightarrow> 'k list" where
  "evictions nb cap hashVal [] c = []"
| "evictions nb cap hashVal (Put key val t # calls) c =
     (case evictee nb cap c of None \<Rightarrow> [] | Some e \<Rightarrow> [e]) @
     (case put nb cap hashVal t key val c of
        Inl e \<Rightarrow> []
      | Inr (ok, c') \<Rightarrow> evictions nb cap hashVal calls c')"
| "evictions nb cap hashVal (Remove key # calls) c =
     evictions nb cap hashVal calls (snd (Cache_remove nb hashVal key c))"

definition after_eviction ::
  "nat \<Rightarrow> int \<Rightarrow> ('k::linorder \<Rightarrow> nat) \<Rightarrow> ('k, 'v) Cache \<Rightarrow> nat \<Rightarrow> ('k, 'v \<times> int) HashTree" where
  "after_eviction nb cap hashVal c i =
     (case evictee nb cap c of
        None \<Rightarrow> buckets c ! i
      | Some e \<Rightarrow> if hashFunc nb hashVal e = i then HashTree_remove (buckets c ! i) e
                  else buckets c ! i)"

section \<open>Properties of the tree operations\<close>

subsection \<open>Insertion\<close>

lemma keys_nodes: "keys t = fst ` set (nodes t)"
  by (induction t) auto

lemma keys_insertNode: "keys (insertNode t key val) = insert key (keys t)"
  by (induction t) auto

lemma size_insertNode: "size (insertNode t key val) = Suc (size t)"
  by (induction t) auto

lemma mset_nodes_insertNode:
  "mset (nodes (insertNode t key val)) = add_mset (key, val) (mset (nodes t))"
  by (induction t) auto

lemma set_nodes_insertNode:
  "set (nodes (insertNode t key val)) = insert (key, val) (set (nodes t))"
  by (induction t) auto

lemma bst_insertNode: "bst t \<Longrightarrow> bst (insertNode t key val)"
  by (induction t) (auto simp: keys_insertNode)

lemma bst_weak_insertNode: "bst_weak t \<Longrightarrow> bst_weak (insertNode t key val)"
  by (induction t) (auto simp: keys_insertNode)

lemma sbst_insertNode: "sbst t \<Longrightarrow> key \<notin> keys t \<Longrightarrow> sbst (insertNode t key val)"
  by (induction t) (auto simp: keys_insertNode)

lemma findNode_insertNode:
  "findNode t key = Node k v l r \<Longrightarrow>
   findNode (insertNode t key val) key = Node k v (insertNode l key val) r"
  by (induction t) (auto split: if_splits)

lemma findNode_key: "findNode t key = Node k v l r \<Longrightarrow> k = key"
  by (induction t) (auto split: if_splits)

subsection \<open>The in-order successor\<close>

lemma getSmallestNode_Node: "t \<noteq> Leaf \<Longrightarrow> getSmallestNode t \<noteq> Leaf"
  by (induction t rule: getSmallestNode.induct) auto

lemma getSmallestNode_in:
  "t \<noteq> Leaf \<Longrightarrow> (m_key (getSmallestNode t), m_val (getSmallestNode t)) \<in> set (nodes t)"
  by (induction t rule: getSmallestNode.induct) auto

lemma getSmallestNode_key: "t \<noteq> Leaf \<Longrightarrow> m_key (getSmallestNode t) \<in> keys t"
  by (induction t rule: getSmallestNode.induct) auto

lemma getSmallestNode_least:
  "bst_weak t \<Longrightarrow> x \<in> keys t \<Longrightarrow> m_key (getSmallestNode t) \<le> x"
proof (induction t arbitrary: x rule: getSmallestNode.induct)
  case 1
  then show ?case by simp
next
  case (2 k v r)
  then show ?case by auto
next
  case (3 k v lk lv ll lr r)
  let ?L = "Node lk lv ll lr"
  from "3.prems" have wl: "bst_weak ?L" and lk: "lk \<le> k" and kr: "\<forall>y \<in> keys r. k \<le> y"
    by auto
  have m: "m_key (getSmallestNode ?L) \<le> lk" using "3.IH"[OF wl, of lk] by simp
  from "3.prems"(2) consider "x = k" | "x \<in> keys ?L" | "x \<in> keys r" by auto
  then show ?case
  proof cases
    case 1
    then show ?thesis using m lk by simp
  next
    case 2
    then show ?thesis using "3.IH"[OF wl] by simp
  next
    case 3
    then show ?thesis using m lk kr by force
  qed
qed

subsection \<open>Removal\<close>

lemma bst_imp_weak: "bst t \<Longrightarrow> bst_weak t"
  by (induction t) auto

lemma keys_remove_subset: "keys (HashTree_remove t key) \<subseteq> keys t"
  by (induction t key rule: HashTree_remove.induct)
     (auto simp: Let_def getSmallestNode_key split: if_splits)

lemma bst_weak_remove: "bst_weak t \<Longrightarrow> bst_weak (HashTree_remove t key)"
proof (induction t key rule: HashTree_remove.induct)
  case (1 key)
  then show ?case by simp
next
  case (2 k v l r key)
  let ?s = "getSmallestNode r"
  show ?case
  proof (cases "k > key \<or> k < key \<or> l = Leaf \<or> r = Leaf")
    case True
    with 2 keys_remove_subset[of l key] keys_remove_subset[of r key] show ?thesis
      by (auto simp: Let_def)
  next
    case False
    then have eq: "HashTree_remove (Node k v l r) key =
        Node (m_key ?s) (m_val ?s) l (HashTree_remove r (m_key ?s))"
      by (simp add: Let_def)
    from False have rn: "r \<noteq> Leaf" by simp
    have in_r: "m_key ?s \<in> keys r" using rn by (rule getSmallestNode_key)
    from "2.prems" have wl: "bst_weak l" and wr: "bst_weak r"
      and lk: "\<forall>x \<in> keys l. x \<le> k" and kr: "\<forall>x \<in> keys r. k \<le> x" by auto
    have "bst_weak (HashTree_remove r (m_key ?s))"
      using "2.IH"(3)[OF _ _ _ _ refl] False wr by auto
    moreover have "\<forall>x \<in> keys l. x \<le> m_key ?s" using lk kr in_r by force
    moreover have "\<forall>x \<in> keys (HashTree_remove r (m_key ?s)). m_key ?s \<le> x"
      using keys_remove_subset[of r "m_key ?s"] getSmallestNode_least[OF wr] by blast
    ultimately show ?thesis using wl eq by simp
  qed
qed

lemma sbst_imp_bst: "sbst t \<Longrightarrow> bst t"
  by (induction t) auto

lemma sbst_imp_distinct: "sbst t \<Longrightarrow> distinct (map fst (nodes t))"
  by (induction t) (fastforce simp: keys_nodes)+

lemma weak_distinct_imp_sbst: "bst_weak t \<Longrightarrow> distinct (map fst (nodes t)) \<Longrightarrow> sbst t"
proof (induction t)
  case Leaf
  then show ?case by simp
next
  case (Node k v l r)
  from Node.prems have wl: "bst_weak l" and wr: "bst_weak r"
    and lk: "\<forall>x \<in> keys l. x \<le> k" and kr: "\<forall>x \<in> keys r. k \<le> x"
    and dl: "distinct (map fst (nodes l))" and dr: "distinct (map fst (nodes r))"
    and nl: "k \<notin> keys l" and nr: "k \<notin> keys r"
    by (auto simp: keys_nodes)
  have "\<forall>x \<in> keys l. x < k" using lk nl by (metis order_le_imp_less_or_eq)
  moreover have "\<forall>x \<in> keys r. k < x" using kr nr by (metis order_le_imp_less_or_eq)
  ultimately show ?case using Node.IH(1)[OF wl dl] Node.IH(2)[OF wr dr] by simp
qed

lemma diff_single_middle:
  "x \<notin># B \<Longrightarrow> x \<noteq> k \<Longrightarrow> (A - {#x#}) + {#k#} + B = (A + {#k#} + B) - {#x#}"
  by (cases "x \<in># A") (auto simp: diff_single_trivial)

lemma remove_cases:
  fixes key k :: "'k::linorder" and l r :: "('k, 'v) HashTree"
  obtains (L) "k > key" | (R) "k < key" | (E1) "k = key" and "l = Leaf"
    | (E2) "k = key" and "l \<noteq> Leaf" and "r = Leaf"
    | (E3) "k = key" and "l \<noteq> Leaf" and "r \<noteq> Leaf"
  by (metis less_linear)

lemma mset_keys_remove:
  "bst_weak t \<Longrightarrow>
   mset (map fst (nodes (HashTree_remove t key))) = mset (map fst (nodes t)) - {#key#}"
proof (induction t key rule: HashTree_remove.induct)
  case (1 key)
  then show ?case by simp
next
  case (2 k v l r key)
  let ?s = "getSmallestNode r"
  let ?K = "\<lambda>t. mset (map fst (nodes t))"
  from "2.prems" have bl: "bst_weak l" and br: "bst_weak r"
    and lk: "\<forall>x \<in> keys l. x \<le> k" and kr: "\<forall>x \<in> keys r. k \<le> x" by auto
  have set_K: "\<And>t::('a, 'b) HashTree. set_mset (?K t) = keys t" by (simp add: keys_nodes)
  show ?case
  proof (cases rule: remove_cases[where key=key and k=k and l=l and r=r])
    case L
    then have "key \<notin> keys r" using kr by force
    then have nr: "key \<notin># ?K r" using set_K by metis
    have "?K (HashTree_remove (Node k v l r) key) = ?K (HashTree_remove l key) + {#k#} + ?K r"
      using L by simp
    also have "\<dots> = (?K l - {#key#}) + {#k#} + ?K r" using "2.IH"(1)[OF L bl] by simp
    also have "\<dots> = (?K l + {#k#} + ?K r) - {#key#}"
      using nr L by (intro diff_single_middle) auto
    finally show ?thesis by simp
  next
    case R
    then have "key \<notin> keys l" using lk by force
    then have nl: "key \<notin># ?K l" using set_K by metis
    from R have nk: "\<not> key < k" by simp
    have "?K (HashTree_remove (Node k v l r) key) = ?K (HashTree_remove r key) + {#k#} + ?K l"
      using R nk by simp
    also have "\<dots> = (?K r - {#key#}) + {#k#} + ?K l" using "2.IH"(2)[OF _ R br] R by simp
    also have "\<dots> = (?K r + {#k#} + ?K l) - {#key#}"
      using nl R by (intro diff_single_middle) auto
    finally show ?thesis by (simp add: add.commute)
  next
    case E1
    then show ?thesis by simp
  next
    case E2
    then show ?thesis by simp
  next
    case E3
    have in_r: "m_key ?s \<in># ?K r" using getSmallestNode_key[OF E3(3)] set_K by metis
    have "?K (HashTree_remove (Node k v l r) key) =
        ?K l + {#m_key ?s#} + ?K (HashTree_remove r (m_key ?s))"
      using E3 by (simp add: Let_def)
    also have "\<dots> = ?K l + {#m_key ?s#} + (?K r - {#m_key ?s#})"
      using "2.IH"(3)[OF _ _ _ _ refl br] E3 by simp
    also have "\<dots> = ?K l + ?K r" using in_r by simp
    finally show ?thesis using E3 by simp
  qed
qed

lemma sbst_unique: "sbst t \<Longrightarrow> (k, v) \<in> set (nodes t) \<Longrightarrow> (k, v') \<in> set (nodes t) \<Longrightarrow> v = v'"
  using sbst_imp_distinct[of t] by (meson eq_key_imp_eq_value)

lemma Collect_node_split:
  "{e \<in> set (nodes (Node k v l r)). P e} =
     {e \<in> set (nodes l). P e} \<union> (if P (k, v) then {(k, v)} else {}) \<union> {e \<in> set (nodes r). P e}"
  by auto

lemma Collect_all: "\<forall>e \<in> A. P e \<Longrightarrow> {e \<in> A. P e} = A"
  by auto

lemma set_nodes_remove:
  "sbst t \<Longrightarrow> set (nodes (HashTree_remove t key)) = {e \<in> set (nodes t). fst e \<noteq> key}"
proof (induction t key rule: HashTree_remove.induct)
  case (1 key)
  then show ?case by simp
next
  case (2 k v l r key)
  let ?s = "getSmallestNode r"
  let ?P = "\<lambda>e. fst e \<noteq> key"
  from "2.prems" have sl: "sbst l" and sr: "sbst r"
    and lk: "\<forall>e \<in> set (nodes l). fst e < k" and kr: "\<forall>e \<in> set (nodes r). k < fst e"
    by (auto simp: keys_nodes)
  show ?case
  proof (cases rule: remove_cases[where key=key and k=k and l=l and r=r])
    case L
    have "\<forall>e \<in> set (nodes r). ?P e" using kr L by force
    then have r_all: "{e \<in> set (nodes r). ?P e} = set (nodes r)" by (rule Collect_all)
    have "set (nodes (HashTree_remove (Node k v l r) key)) =
        set (nodes (HashTree_remove l key)) \<union> {(k, v)} \<union> set (nodes r)"
      using L by simp
    also have "\<dots> = {e \<in> set (nodes l). ?P e} \<union> {(k, v)} \<union> set (nodes r)"
      using "2.IH"(1)[OF L sl] by simp
    also have "\<dots> = {e \<in> set (nodes (Node k v l r)). ?P e}"
      unfolding Collect_node_split r_all using less_imp_neq[OF L] by auto
    finally show ?thesis .
  next
    case R
    from R have nk: "\<not> key < k" by simp
    have "\<forall>e \<in> set (nodes l). ?P e" using lk R by force
    then have l_all: "{e \<in> set (nodes l). ?P e} = set (nodes l)" by (rule Collect_all)
    have "set (nodes (HashTree_remove (Node k v l r) key)) =
        set (nodes l) \<union> {(k, v)} \<union> set (nodes (HashTree_remove r key))"
      using R nk by simp
    also have "\<dots> = set (nodes l) \<union> {(k, v)} \<union> {e \<in> set (nodes r). ?P e}"
      using "2.IH"(2)[OF nk R sr] by simp
    also have "\<dots> = {e \<in> set (nodes (Node k v l r)). ?P e}"
      unfolding Collect_node_split l_all using less_imp_neq[OF R] by auto
    finally show ?thesis .
  next
    case E1
    have "\<forall>e \<in> set (nodes r). ?P e" using kr E1 by force
    then have r_all: "{e \<in> set (nodes r). ?P e} = set (nodes r)" by (rule Collect_all)
    show ?thesis unfolding Collect_node_split r_all using E1 by simp
  next
    case E2
    have "\<forall>e \<in> set (nodes l). ?P e" using lk E2 by force
    then have l_all: "{e \<in> set (nodes l). ?P e} = set (nodes l)" by (rule Collect_all)
    show ?thesis unfolding Collect_node_split l_all using E2 by simp
  next
    case E3
    have "\<forall>e \<in> set (nodes r). ?P e" using kr E3 by force
    then have r_all: "{e \<in> set (nodes r). ?P e} = set (nodes r)" by (rule Collect_all)
    have "\<forall>e \<in> set (nodes l). ?P e" using lk E3 by force
    then have l_all: "{e \<in> set (nodes l). ?P e} = set (nodes l)" by (rule Collect_all)
    have in_r: "(m_key ?s, m_val ?s) \<in> set (nodes r)" using getSmallestNode_in[OF E3(3)] .
    have uniq: "\<And>e. e \<in> set (nodes r) \<Longrightarrow> fst e = m_key ?s \<Longrightarrow> e = (m_key ?s, m_val ?s)"
      using sbst_unique[OF sr _ in_r] by (metis prod.collapse)
    have ih: "set (nodes (HashTree_remove r (m_key ?s))) = {e \<in> set (nodes r). fst e \<noteq> m_key ?s}"
      using "2.IH"(3)[OF _ _ _ _ refl sr] E3 by simp
    have split_r: "{(m_key ?s, m_val ?s)} \<union> {e \<in> set (nodes r). fst e \<noteq> m_key ?s} = set (nodes r)"
      using in_r uniq by blast
    have "set (nodes (HashTree_remove (Node k v l r) key)) =
        set (nodes l) \<union> ({(m_key ?s, m_val ?s)} \<union> {e \<in> set (nodes r). fst e \<noteq> m_key ?s})"
      using E3 ih by (simp add: Let_def)
    also have "\<dots> = set (nodes l) \<union> set (nodes r)" unfolding split_r ..
    also have "\<dots> = {e \<in> set (nodes (Node k v l r)). ?P e}"
      unfolding Collect_node_split r_all l_all using E3 by simp
    finally show ?thesis .
  qed
qed

lemma distinct_keys_remove:
  assumes "bst t" and "distinct (map fst (nodes t))"
  shows "distinct (map fst (nodes (HashTree_remove t key)))"
proof -
  let ?A = "map fst (nodes (HashTree_remove t key))"
  let ?B = "map fst (nodes t)"
  have sub: "mset ?A \<subseteq># mset ?B"
    using mset_keys_remove[OF bst_imp_weak[OF assms(1)], of key] by simp
  have "count (mset ?A) a \<le> 1" for a
  proof -
    have "count (mset ?A) a \<le> count (mset ?B) a" using sub by (rule mset_subset_eq_count)
    also have "\<dots> \<le> 1" using assms(2) by (simp add: distinct_count_atmost_1)
    finally show ?thesis .
  qed
  then show ?thesis unfolding distinct_count_atmost_1 
    by (metis count_mset_0_iff le_antisym less_one linorder_not_less nat_less_le)
qed

lemma sbst_remove: "sbst t \<Longrightarrow> sbst (HashTree_remove t key)"
proof -
  assume s: "sbst t"
  have b: "bst t" using s by (rule sbst_imp_bst)
  have "bst_weak (HashTree_remove t key)"
    using bst_weak_remove[OF bst_imp_weak[OF b]] .
  moreover have "distinct (map fst (nodes (HashTree_remove t key)))"
    using distinct_keys_remove[OF b sbst_imp_distinct[OF s]] .
  ultimately show ?thesis by (rule weak_distinct_imp_sbst)
qed

lemma bst_remove_distinct:
  "bst t \<Longrightarrow> distinct (map fst (nodes t)) \<Longrightarrow> bst (HashTree_remove t key)"
  using weak_distinct_imp_sbst[OF bst_imp_weak] sbst_remove sbst_imp_bst by blast

lemma getVal_absent: "key \<notin> keys t \<Longrightarrow> getVal t key val = (False, val)"
  by (induction t) auto

lemma getVal_present:
  "sbst t \<Longrightarrow> (key, v) \<in> set (nodes t) \<Longrightarrow> getVal t key val = (True, v)"
proof (induction t)
  case Leaf
  then show ?case by simp
next
  case (Node k v' l r)
  from Node.prems(1) have sl: "sbst l" and sr: "sbst r"
    and lk: "\<forall>e \<in> set (nodes l). fst e < k" and kr: "\<forall>e \<in> set (nodes r). k < fst e"
    by (auto simp: keys_nodes)
  from Node.prems(2) consider "(key, v) \<in> set (nodes l)" | "key = k" "v = v'"
    | "(key, v) \<in> set (nodes r)" by auto
  then show ?case
  proof cases
    case 1
    then have "key < k" using lk by force
    then show ?thesis using Node.IH(1)[OF sl 1] by auto
  next
    case 2
    then show ?thesis by simp
  next
    case 3
    then have "k < key" using kr by force
    then show ?thesis using Node.IH(2)[OF sr 3] by auto
  qed
qed

lemma getVal_findNode:
  "getVal t key val = (case findNode t key of Leaf \<Rightarrow> (False, val) | Node k v l r \<Rightarrow> (True, v))"
  by (induction t) auto

lemma remove_absent: "key \<notin> keys t \<Longrightarrow> HashTree_remove t key = t"
  by (induction t) auto

lemma findNode_present: "bst_weak t \<Longrightarrow> key \<in> keys t \<Longrightarrow> findNode t key \<noteq> Leaf"
proof (induction t)
  case Leaf
  then show ?case by simp
next
  case (Node k v l r)
  show ?case
  proof (cases "k = key")
    case True
    then show ?thesis by simp
  next
    case False
    show ?thesis
    proof (cases "key < k")
      case True
      then have "key \<notin> keys r" using Node.prems(1) by force
      then have "key \<in> keys l" using Node.prems(2) False by auto
      then show ?thesis using Node.IH(1) Node.prems(1) True False by simp
    next
      case nlt: False
      then have "key \<notin> keys l" using Node.prems(1) False by force
      then have "key \<in> keys r" using Node.prems(2) False by auto
      then show ?thesis using Node.IH(2) Node.prems(1) nlt False by simp
    qed
  qed
qed

subsection \<open>The search for the oldest node\<close>

lemma func_Leaf: "func Leaf n = n" "func n Leaf = n"
  by (auto simp: func_def)

lemma func_cases: "func a b = a \<or> func a b = b"
  by (auto simp: func_def)

lemma func_le:
  "a \<noteq> Leaf \<Longrightarrow> b \<noteq> Leaf \<Longrightarrow>
   snd (m_val (func a b)) \<le> snd (m_val a) \<and> snd (m_val (func a b)) \<le> snd (m_val b)"
  by (auto simp: func_def)

lemma subtrees_not_Leaf: "n \<in> subtrees t \<Longrightarrow> n \<noteq> Leaf"
  by (induction t) auto

lemma subtrees_nodes: "n \<in> subtrees t \<Longrightarrow> (m_key n, m_val n) \<in> set (nodes t)"
  by (induction t) auto

lemma nodes_subtrees: "e \<in> set (nodes t) \<Longrightarrow> \<exists>n \<in> subtrees t. e = (m_key n, m_val n)"
  by (induction t) force+

lemma seek_func:
  "t \<noteq> Leaf \<Longrightarrow> seekWithComparator t func \<in> subtrees t \<and>
     (\<forall>n \<in> subtrees t. snd (m_val (seekWithComparator t func)) \<le> snd (m_val n))"
proof (induction t)
  case Leaf
  then show ?case by simp
next
  case (Node k v l r)
  let ?sl = "seekWithComparator l func"
  let ?sr = "seekWithComparator r func"
  let ?me = "Node k v l r"
  let ?ts = "\<lambda>n::('a, 'b \<times> int) HashTree. snd (m_val n)"
  have res: "seekWithComparator ?me func = func (func ?sl ?sr) ?me"
    by (simp add: Let_def)
  have sl_Leaf: "l = Leaf \<Longrightarrow> ?sl = Leaf" and sr_Leaf: "r = Leaf \<Longrightarrow> ?sr = Leaf" by auto
  have L: "l \<noteq> Leaf \<Longrightarrow> ?sl \<in> subtrees l \<and> (\<forall>n \<in> subtrees l. ?ts ?sl \<le> ?ts n)"
    using Node.IH(1) by simp
  have R: "r \<noteq> Leaf \<Longrightarrow> ?sr \<in> subtrees r \<and> (\<forall>n \<in> subtrees r. ?ts ?sr \<le> ?ts n)"
    using Node.IH(2) by simp
  let ?lr = "func ?sl ?sr"
  have lr: "(l = Leaf \<and> r = Leaf \<and> ?lr = Leaf) \<or>
      (?lr \<in> subtrees l \<union> subtrees r \<and> (\<forall>n \<in> subtrees l \<union> subtrees r. ?ts ?lr \<le> ?ts n))"
  proof (cases "l = Leaf")
    case lL: True
    show ?thesis
    proof (cases "r = Leaf")
      case True
      then show ?thesis using lL by (simp add: func_Leaf)
    next
      case False
      then show ?thesis using lL R by (simp add: func_Leaf)
    qed
  next
    case lN: False
    show ?thesis
    proof (cases "r = Leaf")
      case True
      then show ?thesis using lN L by (simp add: func_Leaf)
    next
      case False
      have nl: "?sl \<noteq> Leaf" and nr: "?sr \<noteq> Leaf"
        using L[OF lN] R[OF False] subtrees_not_Leaf by blast+
      have le: "?ts ?lr \<le> ?ts ?sl" "?ts ?lr \<le> ?ts ?sr" using func_le[OF nl nr] by auto
      have "?lr \<in> subtrees l \<union> subtrees r"
        using func_cases[of ?sl ?sr] L[OF lN] R[OF False] by auto
      moreover have "\<forall>n \<in> subtrees l \<union> subtrees r. ?ts ?lr \<le> ?ts n"
        using le L[OF lN] R[OF False] by (meson UnE order_trans)
      ultimately show ?thesis by blast
    qed
  qed
  then show ?case
  proof
    assume "l = Leaf \<and> r = Leaf \<and> ?lr = Leaf"
    then show ?thesis unfolding res by (simp add: func_Leaf)
  next
    assume a: "?lr \<in> subtrees l \<union> subtrees r \<and> (\<forall>n \<in> subtrees l \<union> subtrees r. ?ts ?lr \<le> ?ts n)"
    then have n1: "?lr \<noteq> Leaf" using subtrees_not_Leaf by blast
    have le: "?ts (func ?lr ?me) \<le> ?ts ?lr" "?ts (func ?lr ?me) \<le> ?ts ?me"
      using func_le[OF n1, of ?me] by auto
    have "func ?lr ?me \<in> subtrees ?me" using func_cases[of ?lr ?me] a by auto
    moreover have "\<forall>n \<in> subtrees ?me. ?ts (func ?lr ?me) \<le> ?ts n"
      using le a by (auto intro: order_trans)
    ultimately show ?thesis unfolding res by blast
  qed
qed

subsection \<open>A key stored in one node\<close>

lemma count_keys_unique:
  "count (mset (map fst xs)) k \<le> 1 \<Longrightarrow> (k, v) \<in> set xs \<Longrightarrow> (k, v') \<in> set xs \<Longrightarrow> v = v'"
proof (induction xs)
  case Nil
  then show ?case by simp
next
  case (Cons a xs)
  show ?case
  proof (cases "fst a = k")
    case True
    then have "count (mset (map fst xs)) k = 0" using Cons.prems(1) by simp
    then have "k \<notin> fst ` set xs" by (simp add: count_eq_zero_iff)
    then have "(k, v) \<notin> set xs" "(k, v') \<notin> set xs" by force+
    then show ?thesis using Cons.prems(2,3) by auto
  next
    case False
    then show ?thesis using Cons by auto
  qed
qed

lemma count_keys_node:
  "count (mset (map fst (nodes (Node k v l r)))) key =
     count (mset (map fst (nodes l))) key + (if k = key then 1 else 0)
       + count (mset (map fst (nodes r))) key"
  by simp

lemma getVal_unique:
  "bst_weak t \<Longrightarrow> count (mset (map fst (nodes t))) key \<le> 1 \<Longrightarrow> (key, v) \<in> set (nodes t)
     \<Longrightarrow> getVal t key x = (True, v)"
proof (induction t)
  case Leaf
  then show ?case by simp
next
  case (Node k v' l r)
  from Node.prems(1) have wl: "bst_weak l" and wr: "bst_weak r"
    and lk: "\<forall>e \<in> set (nodes l). fst e \<le> k" and kr: "\<forall>e \<in> set (nodes r). k \<le> fst e"
    by (auto simp: keys_nodes)
  have cl: "count (mset (map fst (nodes l))) key \<le> 1"
    and cr: "count (mset (map fst (nodes r))) key \<le> 1"
    using Node.prems(2) unfolding count_keys_node by auto
  show ?case
  proof (cases "k = key")
    case True
    have "(key, v') \<in> set (nodes (Node k v' l r))" using True by simp
    then have "v = v'" using count_keys_unique[OF Node.prems(2) Node.prems(3)] by simp
    then show ?thesis using True by simp
  next
    case False
    show ?thesis
    proof (cases "key < k")
      case True
      then have "(key, v) \<notin> set (nodes r)" using kr by force
      then have "(key, v) \<in> set (nodes l)" using Node.prems(3) False by auto
      then show ?thesis using Node.IH(1)[OF wl cl] True False by simp
    next
      case nlt: False
      then have "k < key" using False by simp
      then have "(key, v) \<notin> set (nodes l)" using lk by force
      then have "(key, v) \<in> set (nodes r)" using Node.prems(3) False by auto
      then show ?thesis using Node.IH(2)[OF wr cr] nlt False by simp
    qed
  qed
qed

lemma entry_remove_other:
  "key \<noteq> key' \<Longrightarrow> count (mset (map fst (nodes t))) key \<le> 1 \<Longrightarrow> (key, v) \<in> set (nodes t)
     \<Longrightarrow> (key, v) \<in> set (nodes (HashTree_remove t key'))"
proof (induction t key' rule: HashTree_remove.induct)
  case (1 key')
  then show ?case by simp
next
  case (2 k v' l r key')
  let ?s = "getSmallestNode r"
  have cl: "count (mset (map fst (nodes l))) key \<le> 1"
    and cr: "count (mset (map fst (nodes r))) key \<le> 1"
    using "2.prems"(2) unfolding count_keys_node by auto
  from "2.prems"(3) consider (inl) "(key, v) \<in> set (nodes l)" | (root) "key = k" "v = v'"
    | (inr) "(key, v) \<in> set (nodes r)" by auto
  note mem = this
  show ?case
  proof (cases rule: remove_cases[where key=key' and k=k and l=l and r=r])
    case L
    show ?thesis using mem
    proof cases
      case inl
      then show ?thesis using "2.IH"(1)[OF L "2.prems"(1) cl] L by simp
    next
      case root
      then show ?thesis using L by simp
    next
      case inr
      then show ?thesis using L by simp
    qed
  next
    case R
    from R have nk: "\<not> key' < k" by simp
    show ?thesis using mem
    proof cases
      case inl
      then show ?thesis using R nk by simp
    next
      case root
      then show ?thesis using R nk by simp
    next
      case inr
      then show ?thesis using "2.IH"(2)[OF nk R "2.prems"(1) cr] R nk by simp
    qed
  next
    case E1
    then show ?thesis using mem "2.prems"(1) by cases auto
  next
    case E2
    then show ?thesis using mem "2.prems"(1) by cases auto
  next
    case E3
    have eq: "HashTree_remove (Node k v' l r) key' =
        Node (m_key ?s) (m_val ?s) l (HashTree_remove r (m_key ?s))"
      using E3 by (simp add: Let_def)
    have in_r: "(m_key ?s, m_val ?s) \<in> set (nodes r)" using getSmallestNode_in[OF E3(3)] .
    show ?thesis using mem
    proof cases
      case inl
      then show ?thesis unfolding eq by simp
    next
      case root
      then show ?thesis using E3 "2.prems"(1) by simp
    next
      case inr
      show ?thesis
      proof (cases "key = m_key ?s")
        case True
        then have "v = m_val ?s" using count_keys_unique[OF cr inr] in_r by simp
        then show ?thesis unfolding eq using True by simp
      next
        case False
        have "(key, v) \<in> set (nodes (HashTree_remove r (m_key ?s)))"
          using "2.IH"(3)[OF _ _ _ _ refl False cr inr] E3 by simp
        then show ?thesis unfolding eq by simp
      qed
    qed
  qed
qed

section \<open>Properties of the cache operations\<close>

lemma hashFunc_less: "0 < nb \<Longrightarrow> hashFunc nb hashVal key < nb"
  by (simp add: hashFunc_def)

lemma removeLRU_loop_all_Leaf:
  "\<forall>b \<in> set bs. b = Leaf \<Longrightarrow> removeLRU_loop bs oldest = oldest"
  by (induction bs arbitrary: oldest) auto

lemma removeLRU_all_Leaf:
  "\<forall>b \<in> set (buckets c). b = Leaf \<Longrightarrow> removeLRU nb hashVal c = Inl NullPointerDereference"
proof -
  assume a: "\<forall>b \<in> set (buckets c). b = Leaf"
  have "\<forall>b \<in> set (take nb (buckets c)). b = Leaf" using a by (meson in_set_takeD)
  then have "removeLRU_loop (take nb (buckets c)) Leaf = Leaf" by (rule removeLRU_loop_all_Leaf)
  then show ?thesis by (simp add: removeLRU_def)
qed

lemma getVal_insertNode_same:
  "getVal (insertNode t key val) key x = (if fst (getVal t key x) then getVal t key x else (True, val))"
  by (induction t) auto

lemma getVal_insertNode_other:
  "key' \<noteq> key \<Longrightarrow> getVal (insertNode t key val) key' x = getVal t key' x"
  by (induction t) auto

lemma get_absent:
  assumes "key \<notin> keys (buckets c ! hashFunc nb hashVal key)"
  shows "get nb hashVal dflt key val c = (False, dflt)"
  using getVal_absent[OF assms, of "(dflt, 0)"] by (simp add: get_def)

lemma Cache_keys_bucket:
  "i < length (buckets c) \<Longrightarrow> keys (buckets c ! i) \<subseteq> Cache_keys c"
proof -
  assume "i < length (buckets c)"
  then have "buckets c ! i \<in> set (buckets c)" by (rule nth_mem)
  then show ?thesis unfolding Cache_keys_def by blast
qed

subsection \<open>Caches without duplicate keys\<close>

lemma Cache_inv_init: "0 < nb \<Longrightarrow> Cache_inv nb hashVal (Cache_init nb)"
  by (simp add: Cache_inv_def Cache_init_def)

lemma Cache_entries_init: "Cache_entries (Cache_init nb) = {}"
  by (simp add: Cache_entries_def Cache_init_def)

lemma Cache_entries_cacheSize [simp]:
  "Cache_entries (c\<lparr>cacheSize := n\<rparr>) = Cache_entries c"
  by (simp add: Cache_entries_def)

lemma Cache_inv_cacheSize [simp]:
  "Cache_inv nb hashVal (c\<lparr>cacheSize := n\<rparr>) = Cache_inv nb hashVal c"
  by (simp add: Cache_inv_def)

lemma Cache_entries_update:
  assumes "i < length (buckets c)"
  shows "Cache_entries (c\<lparr>buckets := (buckets c)[i := t]\<rparr>) =
     (\<Union>j \<in> {..<length (buckets c)} - {i}. set (nodes (buckets c ! j))) \<union> set (nodes t)"
  using assms by (auto simp: Cache_entries_def nth_list_update split: if_splits)

lemma Cache_entries_split:
  assumes "i < length (buckets c)"
  shows "Cache_entries c =
     (\<Union>j \<in> {..<length (buckets c)} - {i}. set (nodes (buckets c ! j))) \<union> set (nodes (buckets c ! i))"
  using assms by (auto simp: Cache_entries_def)

lemma Cache_inv_entry_bucket:
  assumes "Cache_inv nb hashVal c" and "e \<in> Cache_entries c"
  shows "e \<in> set (nodes (buckets c ! hashFunc nb hashVal (fst e)))"
proof -
  from assms(2) obtain i where i: "i < length (buckets c)" "e \<in> set (nodes (buckets c ! i))"
    by (auto simp: Cache_entries_def)
  then have "fst e \<in> keys (buckets c ! i)" by (auto simp: keys_nodes)
  then have "hashFunc nb hashVal (fst e) = i" using assms(1) i(1) by (auto simp: Cache_inv_def)
  then show ?thesis using i(2) by simp
qed

lemma get_present_inv:
  assumes "Cache_inv nb hashVal c" and "(key, v, t) \<in> Cache_entries c"
  shows "get nb hashVal dflt key x c = (True, v)"
proof -
  let ?i = "hashFunc nb hashVal key"
  have "(key, v, t) \<in> set (nodes (buckets c ! ?i))"
    using Cache_inv_entry_bucket[OF assms] by simp
  moreover have "sbst (buckets c ! ?i)"
    using assms(1) hashFunc_less[of nb hashVal key] by (auto simp: Cache_inv_def)
  ultimately have "getVal (buckets c ! ?i) key (dflt, 0) = (True, (v, t))"
    by (rule getVal_present[rotated])
  then show ?thesis by (simp add: get_def)
qed

lemma get_absent_inv:
  assumes "Cache_inv nb hashVal c" and "key \<notin> fst ` Cache_entries c"
  shows "get nb hashVal dflt key x c = (False, dflt)"
proof -
  let ?i = "hashFunc nb hashVal key"
  have "?i < length (buckets c)"
    using assms(1) hashFunc_less[of nb hashVal key] by (auto simp: Cache_inv_def)
  then have "set (nodes (buckets c ! ?i)) \<subseteq> Cache_entries c"
    by (auto simp: Cache_entries_def)
  then have "key \<notin> keys (buckets c ! ?i)" using assms(2) by (auto simp: keys_nodes)
  then show ?thesis by (rule get_absent)
qed

lemma insert_step_inv:
  fixes val :: 'v and t :: int
  assumes inv: "Cache_inv nb hashVal c" and fresh: "key \<notin> fst ` Cache_entries c"
  defines "hv \<equiv> hashFunc nb hashVal key"
  defines "c' \<equiv> c\<lparr>buckets := (buckets c)[hv := insertNode (buckets c ! hv) key (val, t)]\<rparr>"
  shows "Cache_inv nb hashVal c'" and "Cache_entries c' = insert (key, val, t) (Cache_entries c)"
    and "cacheSize c' = cacheSize c"
proof -
  have len: "length (buckets c) = nb" and nb: "0 < nb" using inv by (auto simp: Cache_inv_def)
  have hv: "hv < length (buckets c)" using hashFunc_less[OF nb] len hv_def by simp
  have "set (nodes (buckets c ! hv)) \<subseteq> Cache_entries c"
    using hv by (auto simp: Cache_entries_def)
  then have nk: "key \<notin> keys (buckets c ! hv)" using fresh by (auto simp: keys_nodes)
  have sb: "sbst (buckets c ! hv)" using inv hv len by (auto simp: Cache_inv_def)
  have "sbst (insertNode (buckets c ! hv) key (val, t))" using sbst_insertNode[OF sb nk] .
  then show "Cache_inv nb hashVal c'"
    using inv hv unfolding Cache_inv_def c'_def
    by (auto simp: nth_list_update keys_insertNode hv_def)
  show "Cache_entries c' = insert (key, val, t) (Cache_entries c)"
    unfolding c'_def Cache_entries_update[OF hv] Cache_entries_split[OF hv]
    by (simp add: set_nodes_insertNode)
  show "cacheSize c' = cacheSize c" by (simp add: c'_def)
qed

lemma Cache_remove_inv:
  fixes key :: "'k::linorder"
  assumes inv: "Cache_inv nb hashVal c"
  defines "c' \<equiv> snd (Cache_remove nb hashVal key c)"
  shows "Cache_inv nb hashVal c'" and "Cache_entries c' = {e \<in> Cache_entries c. fst e \<noteq> key}"
    and "cacheSize c' = cacheSize c - 1"
proof -
  let ?hv = "hashFunc nb hashVal key"
  have len: "length (buckets c) = nb" and nb: "0 < nb" using inv by (auto simp: Cache_inv_def)
  have hv: "?hv < length (buckets c)" using hashFunc_less[OF nb] len by simp
  have sb: "sbst (buckets c ! ?hv)" using inv hv len by (auto simp: Cache_inv_def)
  have c': "c' = c\<lparr>buckets := (buckets c)[?hv := HashTree_remove (buckets c ! ?hv) key],
                    cacheSize := cacheSize c - 1\<rparr>"
    by (simp add: c'_def Cache_remove_def Let_def)
  have "sbst (HashTree_remove (buckets c ! ?hv) key)" using sbst_remove[OF sb] .
  then show "Cache_inv nb hashVal c'"
    using inv hv keys_remove_subset[of "buckets c ! ?hv" key] unfolding Cache_inv_def c'
    by (auto simp: nth_list_update)
  have others: "\<And>j e. j < length (buckets c) \<Longrightarrow> j \<noteq> ?hv \<Longrightarrow> e \<in> set (nodes (buckets c ! j))
      \<Longrightarrow> fst e \<noteq> key"
  proof
    fix j e assume j: "j < length (buckets c)" "j \<noteq> ?hv" "e \<in> set (nodes (buckets c ! j))"
      and "fst e = key"
    then have "key \<in> keys (buckets c ! j)" by (auto simp: keys_nodes)
    then have "?hv = j" using inv j(1) len by (auto simp: Cache_inv_def)
    then show False using j(2) by simp
  qed
  have "Cache_entries c' =
      (\<Union>j \<in> {..<length (buckets c)} - {?hv}. set (nodes (buckets c ! j))) \<union>
      {e \<in> set (nodes (buckets c ! ?hv)). fst e \<noteq> key}"
    unfolding c' using Cache_entries_update[OF hv] set_nodes_remove[OF sb] by simp
  also have "\<dots> = {e \<in> Cache_entries c. fst e \<noteq> key}"
    unfolding Cache_entries_split[OF hv] using others by auto
  finally show "Cache_entries c' = {e \<in> Cache_entries c. fst e \<noteq> key}" .
  show "cacheSize c' = cacheSize c - 1" by (simp add: c')
qed

lemma seek_func_Leaf_iff: "seekWithComparator t func = Leaf \<longleftrightarrow> t = Leaf"
  using seek_func[of t] subtrees_not_Leaf by (cases t) auto

lemma removeLRU_loop_not_Leaf:
  "oldest \<noteq> Leaf \<or> (\<exists>b \<in> set bs. b \<noteq> Leaf) \<Longrightarrow> removeLRU_loop bs oldest \<noteq> Leaf"
proof (induction bs arbitrary: oldest)
  case Nil
  then show ?case by simp
next
  case (Cons b bs)
  let ?cur = "seekWithComparator b func"
  show ?case
  proof (cases "b = Leaf")
    case True
    then show ?thesis using Cons.IH[of oldest] Cons.prems by (simp add: Let_def)
  next
    case False
    then have cur: "?cur \<noteq> Leaf" by (simp add: seek_func_Leaf_iff)
    have 1: "removeLRU_loop bs ?cur \<noteq> Leaf" using Cons.IH[of ?cur] cur by simp
    have 2: "oldest \<noteq> Leaf \<Longrightarrow> removeLRU_loop bs oldest \<noteq> Leaf" using Cons.IH[of oldest] by simp
    show ?thesis using cur 1 2 by (simp add: Let_def)
  qed
qed

lemma removeLRU_loop_oldest:
  assumes "removeLRU_loop bs oldest \<noteq> Leaf"
  shows "(removeLRU_loop bs oldest = oldest \<or> (\<exists>b \<in> set bs. removeLRU_loop bs oldest \<in> subtrees b)) \<and>
     (oldest \<noteq> Leaf \<longrightarrow> snd (m_val (removeLRU_loop bs oldest)) \<le> snd (m_val oldest)) \<and>
     (\<forall>b \<in> set bs. \<forall>n \<in> subtrees b. snd (m_val (removeLRU_loop bs oldest)) \<le> snd (m_val n))"
  using assms
proof (induction bs arbitrary: oldest)
  case Nil
  then show ?case by simp
next
  case (Cons b bs)
  let ?cur = "seekWithComparator b func"
  let ?ts = "\<lambda>n::('a, 'b \<times> int) HashTree. snd (m_val n)"
  show ?case
  proof (cases "b = Leaf")
    case True
    then have eq: "removeLRU_loop (b # bs) oldest = removeLRU_loop bs oldest" by (simp add: Let_def)
    show ?thesis using Cons.IH[of oldest] Cons.prems True unfolding eq by auto
  next
    case False
    then have cur: "?cur \<noteq> Leaf" by (simp add: seek_func_Leaf_iff)
    have cur_in: "?cur \<in> subtrees b" and cur_min: "\<forall>n \<in> subtrees b. ?ts ?cur \<le> ?ts n"
      using seek_func[OF False] by auto
    show ?thesis
    proof (cases "oldest = Leaf \<or> ?ts ?cur < ?ts oldest")
      case True
      then have eq: "removeLRU_loop (b # bs) oldest = removeLRU_loop bs ?cur"
        using cur by (auto simp: Let_def)
      let ?res = "removeLRU_loop bs ?cur"
      have ne: "?res \<noteq> Leaf" using Cons.prems unfolding eq .
      note ih = Cons.IH[OF ne]
      have le_cur: "?ts ?res \<le> ?ts ?cur" using ih cur by blast
      have "?res = oldest \<or> (\<exists>b' \<in> set (b # bs). ?res \<in> subtrees b')"
        using ih cur_in by auto
      moreover have "oldest \<noteq> Leaf \<longrightarrow> ?ts ?res \<le> ?ts oldest" using True le_cur by auto
      moreover have "\<forall>b' \<in> set (b # bs). \<forall>n \<in> subtrees b'. ?ts ?res \<le> ?ts n"
        using ih cur_min le_cur by (auto intro: order_trans)
      ultimately show ?thesis unfolding eq by blast
    next
      case nt: False
      then have old: "oldest \<noteq> Leaf" and ge: "?ts oldest \<le> ?ts ?cur" by auto
      have eq: "removeLRU_loop (b # bs) oldest = removeLRU_loop bs oldest"
        using cur nt by (auto simp: Let_def)
      let ?res = "removeLRU_loop bs oldest"
      have ne: "?res \<noteq> Leaf" using Cons.prems unfolding eq .
      note ih = Cons.IH[OF ne]
      have le_old: "?ts ?res \<le> ?ts oldest" using ih old by blast
      have "?res = oldest \<or> (\<exists>b' \<in> set (b # bs). ?res \<in> subtrees b')"
        using ih by auto
      moreover have "\<forall>b' \<in> set (b # bs). \<forall>n \<in> subtrees b'. ?ts ?res \<le> ?ts n"
        using ih cur_min le_old ge by (auto intro: order_trans)
      ultimately show ?thesis unfolding eq using le_old by blast
    qed
  qed
qed

lemma removeLRU_inv:
  assumes inv: "Cache_inv nb hashVal c" and e0: "e0 \<in> Cache_entries c"
    and oldest: "\<forall>e \<in> Cache_entries c. e \<noteq> e0 \<longrightarrow> snd (snd e0) < snd (snd e)"
  shows "removeLRU nb hashVal c = Inl (MissingReturn (snd (Cache_remove nb hashVal (fst e0) c)))"
proof -
  let ?res = "removeLRU_loop (buckets c) Leaf"
  have len: "length (buckets c) = nb" using inv by (simp add: Cache_inv_def)
  from e0 obtain i where i: "i < length (buckets c)" "e0 \<in> set (nodes (buckets c ! i))"
    by (auto simp: Cache_entries_def)
  then have bi: "buckets c ! i \<in> set (buckets c)" by simp
  have "buckets c ! i \<noteq> Leaf" using i(2) by auto
  then have ne: "?res \<noteq> Leaf" using bi removeLRU_loop_not_Leaf[of Leaf "buckets c"] by blast
  note props = removeLRU_loop_oldest[OF ne]
  from props ne obtain b where b: "b \<in> set (buckets c)" "?res \<in> subtrees b" by auto
  from b(1) obtain j where j: "j < length (buckets c)" "b = buckets c ! j"
    by (auto simp: in_set_conv_nth)
  have res_in: "(m_key ?res, m_val ?res) \<in> Cache_entries c"
    using subtrees_nodes[OF b(2)] j by (auto simp: Cache_entries_def)
  from nodes_subtrees[OF i(2)] obtain n where n: "n \<in> subtrees (buckets c ! i)"
    "e0 = (m_key n, m_val n)" by auto
  have "snd (m_val ?res) \<le> snd (m_val n)" using props bi n(1) by blast
  then have "snd (snd (m_key ?res, m_val ?res)) \<le> snd (snd e0)" using n(2) by simp
  then have "(m_key ?res, m_val ?res) = e0" using oldest res_in by force
  then have "m_key ?res = fst e0" by auto
  then show ?thesis using ne len by (simp add: removeLRU_def)
qed

lemma put_noevict_inv:
  assumes inv: "Cache_inv nb hashVal c" and fresh: "key \<notin> fst ` Cache_entries c"
    and room: "cacheSize c < cap"
  shows "\<exists>c'. put nb cap hashVal t key val c = Inr (True, c') \<and> Cache_inv nb hashVal c' \<and>
     Cache_entries c' = insert (key, val, t) (Cache_entries c) \<and> cacheSize c' = cacheSize c + 1"
proof -
  let ?c1 = "c\<lparr>cacheSize := cacheSize c + 1\<rparr>"
  have inv1: "Cache_inv nb hashVal ?c1" using inv by simp
  have fresh1: "key \<notin> fst ` Cache_entries ?c1" using fresh by simp
  note st = insert_step_inv[OF inv1 fresh1, of val t]
  have "put nb cap hashVal t key val c = Inr (True, ?c1\<lparr>buckets := (buckets ?c1)
      [hashFunc nb hashVal key := insertNode (buckets ?c1 ! hashFunc nb hashVal key) key (val, t)]\<rparr>)"
    using room by (simp add: put_def Let_def)
  then show ?thesis using st by simp
qed

lemma put_evict_inv:
  assumes inv: "Cache_inv nb hashVal c"
    and full: "cap \<le> cacheSize c" and e0: "e0 \<in> Cache_entries c"
    and oldest: "\<forall>e \<in> Cache_entries c. e \<noteq> e0 \<longrightarrow> snd (snd e0) < snd (snd e)"
  shows "\<exists>c'. put nb cap hashVal t key val c = Inl (MissingReturn c') \<and> Cache_inv nb hashVal c' \<and>
     Cache_entries c' = {e \<in> Cache_entries c. fst e \<noteq> fst e0} \<and>
     cacheSize c' = cacheSize c"
proof -
  let ?c1 = "c\<lparr>cacheSize := cacheSize c + 1\<rparr>"
  let ?c2 = "snd (Cache_remove nb hashVal (fst e0) ?c1)"
  have inv1: "Cache_inv nb hashVal ?c1" using inv by simp
  have ev: "removeLRU nb hashVal ?c1 = Inl (MissingReturn ?c2)"
    using removeLRU_inv[OF inv1, of e0] e0 oldest by simp
  note rm = Cache_remove_inv[OF inv1, of "fst e0"]
  have "put nb cap hashVal t key val c = Inl (MissingReturn ?c2)"
    using full ev by (simp add: put_def Let_def)
  then show ?thesis using rm by simp
qed

lemma run_append:
  "run nb cap hashVal (xs @ ys) c =
     (case run nb cap hashVal xs c of Inl e \<Rightarrow> Inl e | Inr c' \<Rightarrow> run nb cap hashVal ys c')"
proof (induction xs arbitrary: c)
  case Nil
  then show ?case by simp
next
  case (Cons x xs)
  then show ?case by (cases x) (auto split: sum.splits prod.splits)
qed

lemma run_puts_noevict:
  assumes "Cache_inv nb hashVal c" and "cacheSize c + int (length es) \<le> cap"
    and "distinct (map fst es)" and "fst ` set es \<inter> fst ` Cache_entries c = {}"
  shows "\<exists>c'. run nb cap hashVal (map put_call es) c = Inr c' \<and> Cache_inv nb hashVal c' \<and>
     Cache_entries c' = Cache_entries c \<union> set es \<and> cacheSize c' = cacheSize c + int (length es)"
  using assms
proof (induction es arbitrary: c)
  case Nil
  then show ?case by simp
next
  case (Cons e es)
  obtain key val t where e: "e = (key, val, t)" by (cases e) auto
  have fresh: "key \<notin> fst ` Cache_entries c" using Cons.prems(4) e by auto
  have room: "cacheSize c < cap" using Cons.prems(2) by simp
  from put_noevict_inv[OF Cons.prems(1) fresh room, of t val]
  obtain c1 where c1: "put nb cap hashVal t key val c = Inr (True, c1)" "Cache_inv nb hashVal c1"
    "Cache_entries c1 = insert (key, val, t) (Cache_entries c)" "cacheSize c1 = cacheSize c + 1"
    by blast
  have 2: "cacheSize c1 + int (length es) \<le> cap" using Cons.prems(2) c1(4) by simp
  have 3: "distinct (map fst es)" using Cons.prems(3) by simp
  have 4: "fst ` set es \<inter> fst ` Cache_entries c1 = {}"
    using Cons.prems(3,4) c1(3) e by auto
  from Cons.IH[OF c1(2) 2 3 4]
  obtain c' where c': "run nb cap hashVal (map put_call es) c1 = Inr c'" "Cache_inv nb hashVal c'"
    "Cache_entries c' = Cache_entries c1 \<union> set es" "cacheSize c' = cacheSize c1 + int (length es)"
    by blast
  have "run nb cap hashVal (map put_call (e # es)) c = Inr c'" using c1(1) c'(1) e by simp
  moreover have "Cache_entries c' = Cache_entries c \<union> set (e # es)" using c'(3) c1(3) e by auto
  moreover have "cacheSize c' = cacheSize c + int (length (e # es))" using c'(4) c1(4) by simp
  ultimately show ?case using c'(2) by blast
qed

subsection \<open>One bucket in the course of a run\<close>

lemma Cache_remove_bucket:
  assumes "length (buckets c) = nb" and "i < nb"
  shows "length (buckets (snd (Cache_remove nb hashVal key c))) = nb"
    and "buckets (snd (Cache_remove nb hashVal key c)) ! i =
      (if hashFunc nb hashVal key = i then HashTree_remove (buckets c ! i) key else buckets c ! i)"
  using assms by (auto simp: Cache_remove_def Let_def nth_list_update)

lemma put_bucket:
  assumes put: "put nb cap hashVal t key val c = Inr (ok, c')"
    and len: "length (buckets c) = nb" and i: "i < nb"
  shows "ok" and "length (buckets c') = nb"
    and "buckets c' ! i =
      (if hashFunc nb hashVal key = i
       then insertNode (after_eviction nb cap hashVal c i) key (val, t)
       else after_eviction nb cap hashVal c i)"
proof -
  let ?c1 = "c\<lparr>cacheSize := cacheSize c + 1\<rparr>"
  let ?hv = "hashFunc nb hashVal key"
  let ?ins = "\<lambda>c2. c2\<lparr>buckets := (buckets c2)[?hv := insertNode (buckets c2 ! ?hv) key (val, t)]\<rparr>"
  have len1: "length (buckets ?c1) = nb" using len by simp
  obtain c2 where c2: "c' = ?ins c2" "length (buckets c2) = nb"
    "buckets c2 ! i = after_eviction nb cap hashVal c i" and ok: "ok"
  proof (cases "cap \<le> cacheSize c")
    case False
    then have "put nb cap hashVal t key val c = Inr (True, ?ins ?c1)"
      by (simp add: put_def Let_def)
    moreover have "buckets ?c1 ! i = after_eviction nb cap hashVal c i"
      using False by (simp add: after_eviction_def evictee_def)
    ultimately show ?thesis using that[of ?c1] put len1 by simp
  next
    case True
    let ?old = "removeLRU_loop (take nb (buckets c)) Leaf"
    show ?thesis
    proof (cases ?old)
      case Leaf
      then have "removeLRU nb hashVal ?c1 = Inl NullPointerDereference"
        by (simp add: removeLRU_def)
      then have "put nb cap hashVal t key val c = Inl NullPointerDereference"
        using True by (simp add: put_def Let_def)
      then show ?thesis using put by simp
    next
      case (Node ek ev el er)
      then have "removeLRU nb hashVal ?c1 =
          Inl (MissingReturn (snd (Cache_remove nb hashVal ek ?c1)))"
        by (simp add: removeLRU_def)
      then have "put nb cap hashVal t key val c =
          Inl (MissingReturn (snd (Cache_remove nb hashVal ek ?c1)))"
        using True by (simp add: put_def Let_def)
      then show ?thesis using put by simp
    qed
  qed
  show "ok" using ok .
  show "length (buckets c') = nb" using c2 by simp
  show "buckets c' ! i =
      (if ?hv = i then insertNode (after_eviction nb cap hashVal c i) key (val, t)
       else after_eviction nb cap hashVal c i)"
    using c2 i by (auto simp: nth_list_update)
qed

lemma run_bucket_pred:
  assumes "run nb cap hashVal calls c = Inr c'" and "length (buckets c) = nb" and "i < nb"
    and "P (buckets c ! i)"
    and "\<And>t e. Remove e \<in> set calls \<or> e \<in> set (evictions nb cap hashVal calls c) \<Longrightarrow> P t
           \<Longrightarrow> P (HashTree_remove t e)"
    and "\<And>t k v ts. Put k v ts \<in> set calls \<Longrightarrow> P t \<Longrightarrow> P (insertNode t k (v, ts))"
  shows "length (buckets c') = nb \<and> P (buckets c' ! i)"
  using assms
proof (induction calls arbitrary: c)
  case Nil
  then show ?case by simp
next
  case (Cons call calls)
  note i = \<open>i < nb\<close>
  show ?case
  proof (cases call)
    case (Put k v ts)
    from Cons.prems(1) Put obtain ok c1 where
      put: "put nb cap hashVal ts k v c = Inr (ok, c1)" and run1: "run nb cap hashVal calls c1 = Inr c'"
      by (auto split: sum.splits)
    note pb = put_bucket[OF put Cons.prems(2) i]
    have ev: "evictions nb cap hashVal (call # calls) c =
        (case evictee nb cap c of None \<Rightarrow> [] | Some e \<Rightarrow> [e]) @ evictions nb cap hashVal calls c1"
      using Put put by simp
    have Pae: "P (after_eviction nb cap hashVal c i)"
    proof (cases "evictee nb cap c")
      case None
      then show ?thesis using Cons.prems(4) by (simp add: after_eviction_def)
    next
      case (Some e)
      then have "e \<in> set (evictions nb cap hashVal (call # calls) c)" unfolding ev by simp
      then have "P (HashTree_remove (buckets c ! i) e)" using Cons.prems(5) Cons.prems(4) by blast
      then show ?thesis using Some Cons.prems(4) by (simp add: after_eviction_def)
    qed
    have "P (insertNode (after_eviction nb cap hashVal c i) k (v, ts))"
      using Cons.prems(6)[OF _ Pae, of k v ts] Put by simp
    then have P1: "P (buckets c1 ! i)" using pb(3) Pae by simp
    show ?thesis
    proof (rule Cons.IH[OF run1 pb(2) i P1])
      fix t e assume "Remove e \<in> set calls \<or> e \<in> set (evictions nb cap hashVal calls c1)" "P t"
      then show "P (HashTree_remove t e)" using Cons.prems(5)[of e t] unfolding ev by auto
    next
      fix t k' v' ts' assume "Put k' v' ts' \<in> set calls" "P t"
      then show "P (insertNode t k' (v', ts'))" using Cons.prems(6)[of k' v' ts' t] by simp
    qed
  next
    case (Remove k)
    let ?c1 = "snd (Cache_remove nb hashVal k c)"
    have run1: "run nb cap hashVal calls ?c1 = Inr c'" using Cons.prems(1) Remove by simp
    note rb = Cache_remove_bucket[OF Cons.prems(2) i, of hashVal k]
    have ev: "evictions nb cap hashVal (call # calls) c = evictions nb cap hashVal calls ?c1"
      using Remove by simp
    have "P (HashTree_remove (buckets c ! i) k)"
      using Cons.prems(5)[of k "buckets c ! i"] Cons.prems(4) Remove by simp
    then have P1: "P (buckets ?c1 ! i)" using rb(2) Cons.prems(4) by simp
    show ?thesis
    proof (rule Cons.IH[OF run1 rb(1) i P1])
      fix t e assume "Remove e \<in> set calls \<or> e \<in> set (evictions nb cap hashVal calls ?c1)" "P t"
      then show "P (HashTree_remove t e)" using Cons.prems(5)[of e t] unfolding ev by auto
    next
      fix t k' v' ts' assume "Put k' v' ts' \<in> set calls" "P t"
      then show "P (insertNode t k' (v', ts'))" using Cons.prems(6)[of k' v' ts' t] by simp
    qed
  qed
qed

lemma count_keys_insertNode:
  "count (mset (map fst (nodes (insertNode t key val)))) k =
     count (mset (map fst (nodes t))) k + (if key = k then 1 else 0)"
  by (simp add: mset_nodes_insertNode)

lemma count_keys_remove_other:
  "bst_weak t \<Longrightarrow> key \<noteq> k \<Longrightarrow>
   count (mset (map fst (nodes (HashTree_remove t key)))) k = count (mset (map fst (nodes t))) k"
  using mset_keys_remove[of t key] by simp

lemma count_keys_absent: "k \<notin> keys t \<Longrightarrow> count (mset (map fst (nodes t))) k = 0"
  by (simp add: keys_nodes count_eq_zero_iff)

lemma run_bst_weak:
  assumes "run nb cap hashVal calls c = Inr c'" and "length (buckets c) = nb" and "i < nb"
    and "bst_weak (buckets c ! i)"
  shows "length (buckets c') = nb \<and> bst_weak (buckets c' ! i)"
  using assms(1-4) by (rule run_bucket_pred) (simp_all add: bst_weak_remove bst_weak_insertNode)

lemma reachable_bst_weak:
  assumes "run nb cap hashVal calls (Cache_init nb) = Inr c" and "i < nb"
  shows "length (buckets c) = nb \<and> bst_weak (buckets c ! i)"
  using assms(1) _ assms(2) by (rule run_bst_weak) (simp_all add: Cache_init_def assms(2))

lemma get_bucket:
  "get nb hashVal dflt key x c =
     (fst (getVal (buckets c ! hashFunc nb hashVal key) key (dflt, 0)),
      fst (snd (getVal (buckets c ! hashFunc nb hashVal key) key (dflt, 0))))"
  by (simp add: get_def Let_def split: prod.splits)

text \<open>
  A \<open>put\<close> of a key that the lookup already finds, made while the counter is below the
  capacity, leaves the result of \<open>get\<close> for that key as it was: the new node is below the
  node at which the lookup stops.
\<close>

lemma put_present_shadowed:
  assumes len: "length (buckets c) = nb" and nb: "0 < nb"
    and put: "put nb cap hashVal t key val c = Inr (ok, c1)"
    and room: "cacheSize c < cap" and found: "fst (get nb hashVal dflt key x c)"
  shows "get nb hashVal dflt key x c1 = get nb hashVal dflt key x c"
proof -
  let ?hv = "hashFunc nb hashVal key"
  let ?b = "buckets c ! ?hv"
  let ?ae = "after_eviction nb cap hashVal c ?hv"
  have hv: "?hv < nb" using nb by (rule hashFunc_less)
  have b1: "buckets c1 ! ?hv = insertNode ?ae key (val, t)"
    using put_bucket(3)[OF put len hv] by simp
  have "?ae = ?b" using room by (simp add: after_eviction_def evictee_def)
  moreover have "fst (getVal ?b key (dflt, 0))" using found unfolding get_bucket by simp
  ultimately show ?thesis unfolding get_bucket b1 getVal_insertNode_same by simp
qed

subsection \<open>Which calls of put return\<close>

text \<open>
  A \<open>put\<close> made while the counter is below the capacity returns \<open>true\<close>. A \<open>put\<close> made
  while the counter has reached the capacity calls \<open>removeLRU\<close> and ends in its error. A run
  that starts with enough room for all its calls returns.
\<close>

lemma put_below_capacity_returns:
  "cacheSize c < cap \<Longrightarrow>
   \<exists>c'. put nb cap hashVal t key val c = Inr (True, c') \<and> cacheSize c' = cacheSize c + 1"
  by (simp add: put_def Let_def)

lemma removeLRU_never_returns: "\<exists>e. removeLRU nb hashVal c = Inl e"
  by (simp add: removeLRU_def Let_def)

lemma put_at_capacity_fails:
  "cap \<le> cacheSize c \<Longrightarrow> \<exists>e. put nb cap hashVal t key val c = Inl e"
  using removeLRU_never_returns[of nb hashVal "c\<lparr>cacheSize := cacheSize c + 1\<rparr>"]
  by (auto simp: put_def Let_def)

lemma run_with_room_returns:
  "cacheSize c + int (length calls) \<le> cap \<Longrightarrow>
   \<exists>c'. run nb cap hashVal calls c = Inr c' \<and> cacheSize c' \<le> cacheSize c + int (length calls)"
proof (induction calls arbitrary: c)
  case Nil
  then show ?case by simp
next
  case (Cons call calls)
  show ?case
  proof (cases call)
    case (Put k v t)
    have "cacheSize c < cap" using Cons.prems by simp
    from put_below_capacity_returns[OF this, of nb hashVal t k v]
    obtain c1 where c1: "put nb cap hashVal t k v c = Inr (True, c1)"
      "cacheSize c1 = cacheSize c + 1" by blast
    have "cacheSize c1 + int (length calls) \<le> cap" using Cons.prems c1(2) by simp
    from Cons.IH[OF this] obtain c' where "run nb cap hashVal calls c1 = Inr c'"
      "cacheSize c' \<le> cacheSize c1 + int (length calls)" by blast
    then show ?thesis using c1 Put by simp
  next
    case (Remove k)
    let ?c1 = "snd (Cache_remove nb hashVal k c)"
    have cs: "cacheSize ?c1 = cacheSize c - 1" by (simp add: Cache_remove_def Let_def)
    then have "cacheSize ?c1 + int (length calls) \<le> cap" using Cons.prems by simp
    from Cons.IH[OF this] obtain c' where "run nb cap hashVal calls ?c1 = Inr c'"
      "cacheSize c' \<le> cacheSize ?c1 + int (length calls)" by blast
    then show ?thesis using cs Remove by simp
  qed
qed

section \<open>The claims about the tree\<close>

text \<open>
  C6. Insertion routes a key less-or-equal to the key of the current node into the left
  subtree and a greater key into the right subtree. When the lookup of the key stops at a
  node, that is when the key is already present, the insertion leaves that node as it is
  and puts a new node with the same key into its left subtree; every insertion adds
  exactly one node, the new entry, to the tree.
\<close>

theorem insertNode_routing_duplicates:
  "(key \<le> k \<longrightarrow> insertNode (Node k v l r) key val = Node k v (insertNode l key val) r) \<and>
   (k < key \<longrightarrow> insertNode (Node k v l r) key val = Node k v l (insertNode r key val)) \<and>
   (bst t \<and> key \<in> keys t \<longrightarrow> findNode t key \<noteq> Leaf) \<and>
   (findNode t key = Node k' v' l' r' \<longrightarrow>
      k' = key \<and>
      findNode (insertNode t key val) key = Node k' v' (insertNode l' key val) r' \<and>
      (key, val) \<in> set (nodes (insertNode l' key val))) \<and>
   size (insertNode t key val) = Suc (size t) \<and>
   mset (nodes (insertNode t key val)) = add_mset (key, val) (mset (nodes t))"
  using findNode_present[OF bst_imp_weak, of t key] findNode_key[of t key k' v' l' r']
    findNode_insertNode[of t key k' v' l' r' val]
  by (auto simp: size_insertNode mset_nodes_insertNode set_nodes_insertNode)

theorem insertNode_routing_duplicates_witness:
  "insertNode (Node (5::int) (1::nat) Leaf Leaf) 5 2 = Node 5 1 (Node 5 2 Leaf Leaf) Leaf \<and>
   insertNode (Node (5::int) (1::nat) Leaf Leaf) 7 2 = Node 5 1 Leaf (Node 7 2 Leaf Leaf) \<and>
   findNode (Node (3::int) (0::nat) Leaf (Node 5 1 Leaf Leaf)) 5 = Node 5 1 Leaf Leaf \<and>
   findNode (insertNode (Node (3::int) (0::nat) Leaf (Node 5 1 Leaf Leaf)) 5 2) 5
     = Node 5 1 (Node 5 2 Leaf Leaf) Leaf \<and>
   size (insertNode (Node (3::int) (0::nat) Leaf (Node 5 1 Leaf Leaf)) 5 2) = 3"
  using insertNode_routing_duplicates[of 5 "5::int" "1::nat" Leaf Leaf 2
      "Node 3 0 Leaf (Node 5 1 Leaf Leaf)" 5 1 Leaf Leaf]
    insertNode_routing_duplicates[of 7 "5::int" "1::nat" Leaf Leaf 2 Leaf 5 1 Leaf Leaf]
  by simp

text \<open>
  C8. The search returns the null pointer for the empty tree, whatever the comparator. The
  comparator of the eviction returns the other argument when one is null. With it, the
  search of a non-empty tree goes through both subtrees of every node and returns a node
  of the tree whose timestamp is less-or-equal to the timestamp of every node of the tree.
\<close>

theorem seekWithComparator_oldest:
  "seekWithComparator Leaf comparator = Leaf \<and>
   func Leaf n = n \<and> func n Leaf = n \<and>
   seekWithComparator (Node k v l r) comparator =
     comparator (comparator (seekWithComparator l comparator) (seekWithComparator r comparator))
       (Node k v l r) \<and>
   (t \<noteq> Leaf \<longrightarrow>
      seekWithComparator t func \<in> subtrees t \<and>
      (\<forall>n \<in> subtrees t. snd (m_val (seekWithComparator t func)) \<le> snd (m_val n)))"
  using seek_func[of t] by (simp add: func_Leaf Let_def)

theorem seekWithComparator_oldest_witness:
  "seekWithComparator
     (Node (5::int) (''a'', 30) (Node 3 (''b'', 10) Leaf Leaf) (Node 8 (''c'', 20) Leaf Leaf)) func
   = Node 3 (''b'', 10) Leaf Leaf"
  using seekWithComparator_oldest[of
      "\<lambda>a b. a" "Leaf :: (int, string \<times> int) HashTree" 5 "(''a'', 30)" Leaf Leaf
      "Node (5::int) (''a'', 30) (Node 3 (''b'', 10) Leaf Leaf) (Node 8 (''c'', 20) Leaf Leaf)"]
  by (simp add: func_def)

text \<open>
  The ordering invariant holds of the empty tree and is preserved by every insertion. A
  removal preserves it in a tree whose keys are pairwise distinct, and the keys stay
  distinct; the removal of an absent key returns the tree unchanged.
\<close>

lemma bst_preserved_distinct_keys:
  "bst (Leaf :: ('k::linorder, 'v) HashTree) \<and>
   (bst (t :: ('k, 'v) HashTree) \<longrightarrow> bst (insertNode t key val)) \<and>
   (bst t \<and> distinct (map fst (nodes t)) \<longrightarrow>
      bst (HashTree_remove t key) \<and> distinct (map fst (nodes (HashTree_remove t key)))) \<and>
   (key \<notin> keys t \<longrightarrow> HashTree_remove t key = t)"
  using bst_insertNode[of t key val] bst_remove_distinct[of t key] distinct_keys_remove[of t key]
    remove_absent[of key t]
  by simp

text \<open>
  C9. The claim is that every removal preserves the ordering invariant. The tree built by
  inserting 5, 3, 8 and 8 again is ordered. The removal of 5, a node with two children,
  copies the leftmost node of the right subtree, the second 8, into the root and then
  removes the key 8 from the right subtree, which deletes the first node with that key on
  the search path: the first 8, not the node that was copied. The result holds the key 8
  at the root and in the right subtree, so it is not ordered; the entry \<open>(8, 2)\<close> is lost,
  \<open>(8, 3)\<close> is stored twice, and the lookup of 8 returns 3 where it returned 2.
\<close>

theorem remove_two_children_breaks_order:
  "insertNode (insertNode (insertNode (insertNode Leaf (5::int) (0::nat)) 3 1) 8 2) 8 3
     = Node 5 0 (Node 3 1 Leaf Leaf) (Node 8 2 (Node 8 3 Leaf Leaf) Leaf) \<and>
   bst (Node (5::int) (0::nat) (Node 3 1 Leaf Leaf) (Node 8 2 (Node 8 3 Leaf Leaf) Leaf)) \<and>
   HashTree_remove (Node (5::int) (0::nat) (Node 3 1 Leaf Leaf) (Node 8 2 (Node 8 3 Leaf Leaf) Leaf)) 5
     = Node 8 3 (Node 3 1 Leaf Leaf) (Node 8 3 Leaf Leaf) \<and>
   \<not> bst (HashTree_remove
            (Node (5::int) (0::nat) (Node 3 1 Leaf Leaf) (Node 8 2 (Node 8 3 Leaf Leaf) Leaf)) 5) \<and>
   getVal (Node (5::int) (0::nat) (Node 3 1 Leaf Leaf) (Node 8 2 (Node 8 3 Leaf Leaf) Leaf)) 8 7
     = (True, 2) \<and>
   getVal (HashTree_remove
            (Node (5::int) (0::nat) (Node 3 1 Leaf Leaf) (Node 8 2 (Node 8 3 Leaf Leaf) Leaf)) 5) 8 7
     = (True, 3)"
  by simp

section \<open>The claims about single calls of the cache\<close>

text \<open>
  C3. The claim is that \<open>removeLRU\<close> on a cache whose buckets are all empty returns without
  error and leaves the cache unchanged. The code does not: the loop leaves \<open>oldest\<close> null,
  and the statement that prints \<open>oldest->m_key\<close> reads through it. This holds whatever the
  counter is.
\<close>

theorem removeLRU_empty_null_dereference:
  "removeLRU nb hashVal (c\<lparr>buckets := replicate nb Leaf\<rparr>) = Inl NullPointerDereference"
  by (rule removeLRU_all_Leaf) simp

text \<open>
  C4. The claim is that \<open>remove\<close> of an absent key returns \<open>false\<close> and does not decrement
  the counter. On the cache the constructor builds, with the constants of the source, the
  code returns \<open>true\<close> and leaves the counter at \<open>-1\<close>; the trees are unchanged.
\<close>

theorem Cache_remove_absent_returns_true:
  "Cache_remove NUM_BUCKETS hashVal key (Cache_init NUM_BUCKETS)
     = (True, \<lparr>buckets = replicate NUM_BUCKETS Leaf, cacheSize = - 1\<rparr>)"
proof -
  have "hashFunc NUM_BUCKETS hashVal key < NUM_BUCKETS"
    by (rule hashFunc_less) (simp add: NUM_BUCKETS_def)
  then show ?thesis
    by (simp add: Cache_remove_def Cache_init_def Let_def list_eq_iff_nth_eq nth_list_update)
qed

text \<open>
  In \<^verbatim>\<open>hashcache.cc\<close>, \<open>put\<close> increments the counter and calls \<open>removeLRU\<close> exactly when
  the incremented counter exceeds the capacity, before the insertion; a \<open>put\<close> that returns,
  returns \<open>true\<close>.
\<close>

lemma put_evicts_iff:
  "put nb cap hashVal t key val c =
     (let c1 = c\<lparr>cacheSize := cacheSize c + 1\<rparr>;
          ins = (\<lambda>c2. c2\<lparr>buckets := (buckets c2)[hashFunc nb hashVal key :=
                   insertNode (buckets c2 ! hashFunc nb hashVal key) key (val, t)]\<rparr>)
      in if cacheSize c1 > cap
         then (case removeLRU nb hashVal c1 of Inl e \<Rightarrow> Inl e | Inr c2 \<Rightarrow> Inr (True, ins c2))
         else Inr (True, ins c1))"
  by (simp add: put_def Let_def split: sum.splits)

lemma put_part_000_at_capacity:
  "put_part_000 nb cap hashVal t key val (c\<lparr>cacheSize := cap\<rparr>) =
     Inr (True, c\<lparr>cacheSize := cap + 1,
                  buckets := (buckets c)[hashFunc nb hashVal key :=
                    insertNode (buckets c ! hashFunc nb hashVal key) key (val, t)]\<rparr>)"
  by (simp add: put_part_000_def Let_def)

text \<open>
  C7, for the \<open>put\<close> of the second source file with the constants of the source. When the
  counter equals the capacity before the call, the incremented counter exceeds the
  capacity, yet no eviction takes place: the entry is inserted into the cache as it was.
\<close>

theorem put_part_000_no_eviction_at_capacity:
  "put_part_000 NUM_BUCKETS CACHE_SIZE hashVal t key val (c\<lparr>cacheSize := CACHE_SIZE\<rparr>) =
     Inr (True, c\<lparr>cacheSize := CACHE_SIZE + 1,
                  buckets := (buckets c)[hashFunc NUM_BUCKETS hashVal key :=
                    insertNode (buckets c ! hashFunc NUM_BUCKETS hashVal key) key (val, t)]\<rparr>)"
  by (rule put_part_000_at_capacity)

text \<open>
  C10. For a key that is stored in no bucket, \<open>get\<close> returns \<open>false\<close> and the caller's
  \<open>val\<close> holds the default value of the value type afterwards, whatever it held before.
\<close>

theorem get_absent_overwrites_with_default:
  "length (buckets c) = nb \<and> 0 < nb \<and> key \<notin> Cache_keys c \<longrightarrow>
     get nb hashVal dflt key val c = (False, dflt)"
proof (intro impI, elim conjE)
  assume len: "length (buckets c) = nb" and nb: "0 < nb" and abs: "key \<notin> Cache_keys c"
  have "hashFunc nb hashVal key < length (buckets c)" using hashFunc_less[OF nb] len by simp
  then have "key \<notin> keys (buckets c ! hashFunc nb hashVal key)"
    using Cache_keys_bucket abs by blast
  then show "get nb hashVal dflt key val c = (False, dflt)" by (rule get_absent)
qed

theorem get_absent_overwrites_with_default_witness:
  "get 1 nat (0::nat) (7::int) 42 \<lparr>buckets = [Node 5 (1, 10) Leaf Leaf], cacheSize = 1\<rparr> = (False, 0)"
  using get_absent_overwrites_with_default[of
      "\<lparr>buckets = [Node (5::int) (1::nat, 10) Leaf Leaf], cacheSize = 1\<rparr>" 1 7 nat 0 42]
  by (simp add: Cache_keys_def)

section \<open>The claims about sequences of calls\<close>

text \<open>
  C2. The claim is that after \<open>cap + 1\<close> puts of distinct keys with strictly increasing
  timestamps into the cache the constructor builds, the key with the smallest timestamp
  is not found and each of the other \<open>cap\<close> keys is found. In the code the first \<open>cap\<close>
  puts are carried out. The last \<open>put\<close> calls \<open>removeLRU\<close>, which removes the oldest entry
  and then reaches the end of the function without a value to return: the \<open>put\<close> does not
  return and the new entry is not inserted. At that point the cache holds the entries that
  were put after the first and before the last.
\<close>

theorem put_beyond_capacity_missing_return:
  "0 < nb \<and> 1 \<le> cap \<and> length es = Suc cap \<and> distinct (map fst es) \<and>
   sorted_wrt (<) (map (snd \<circ> snd) es) \<longrightarrow>
   (\<exists>c. run nb (int cap) hashVal (map put_call es) (Cache_init nb) = Inl (MissingReturn c) \<and>
        Cache_entries c = set (butlast (tl es)))"
proof (intro impI, elim conjE)
  assume nb: "0 < nb" and cap: "1 \<le> cap" and len: "length es = Suc cap"
    and dist: "distinct (map fst es)" and sorted: "sorted_wrt (<) (map (snd \<circ> snd) es)"
  from len obtain e0 rest where es0: "es = e0 # rest" and lr: "length rest = cap"
    by (cases es) auto
  have rn: "rest \<noteq> []" using lr cap by auto
  define mid where "mid = butlast rest"
  define el where "el = last rest"
  have rest: "rest = mid @ [el]" using rn by (simp add: mid_def el_def)
  have es: "es = (e0 # mid) @ [el]" using es0 rest by simp
  have len1: "length (e0 # mid) = cap" using len es by simp
  obtain key val t where el: "el = (key, val, t)" by (cases el) auto
  let ?init = "Cache_init nb :: ('a, 'b) Cache"
  have inv0: "Cache_inv nb hashVal ?init" using nb by (rule Cache_inv_init)
  have cs0: "cacheSize ?init = 0" by (simp add: Cache_init_def)
  have "\<exists>c'. run nb (int cap) hashVal (map put_call (e0 # mid)) ?init = Inr c' \<and>
      Cache_inv nb hashVal c' \<and> Cache_entries c' = Cache_entries ?init \<union> set (e0 # mid) \<and>
      cacheSize c' = cacheSize ?init + int (length (e0 # mid))"
  proof (rule run_puts_noevict[OF inv0])
    show "cacheSize ?init + int (length (e0 # mid)) \<le> int cap"
      using len1 cs0 by simp
    show "distinct (map fst (e0 # mid))" using dist es by simp
    show "fst ` set (e0 # mid) \<inter> fst ` Cache_entries ?init = {}"
      by (simp add: Cache_entries_init)
  qed
  then obtain c1 where c1: "run nb (int cap) hashVal (map put_call (e0 # mid)) ?init = Inr c1"
    "Cache_inv nb hashVal c1" "Cache_entries c1 = set (e0 # mid)" "cacheSize c1 = int cap"
    using len1 cs0 by (auto simp: Cache_entries_init)
  have e0_in: "e0 \<in> Cache_entries c1" using c1(3) by simp
  have oldest: "\<forall>e \<in> Cache_entries c1. e \<noteq> e0 \<longrightarrow> snd (snd e0) < snd (snd e)"
    using sorted es c1(3) by auto
  from put_evict_inv[OF c1(2) _ e0_in oldest, of "int cap" t key val] c1(4)
  obtain c where c: "put nb (int cap) hashVal t key val c1 = Inl (MissingReturn c)"
    "Cache_entries c = {e \<in> Cache_entries c1. fst e \<noteq> fst e0}"
    by auto
  have run: "run nb (int cap) hashVal (map put_call es) ?init = Inl (MissingReturn c)"
    unfolding es map_append run_append using c1(1) c(1) el by simp
  have nm: "fst e0 \<notin> fst ` set mid" using dist es by simp
  have ne: "fst e \<noteq> fst e0" if "e \<in> set mid" for e
  proof -
    from that have "fst e \<in> fst ` set mid" by (rule imageI)
    then show ?thesis using nm by metis
  qed
  have "{e \<in> set (e0 # mid). fst e \<noteq> fst e0} = set mid" using ne by auto
  moreover have "butlast (tl es) = mid" using es by simp
  ultimately have "Cache_entries c = set (butlast (tl es))" using c(2) c1(3) by simp
  then show "\<exists>c. run nb (int cap) hashVal (map put_call es) (Cache_init nb)
        = Inl (MissingReturn c) \<and> Cache_entries c = set (butlast (tl es))"
    using run by blast
qed

theorem put_beyond_capacity_missing_return_witness:
  "run 1 4 nat
     (map put_call [(1::int, 11::nat, 10), (2, 12, 20), (3, 13, 30), (4, 14, 40), (5, 15, 50)])
     (Cache_init 1)
   = Inl (MissingReturn
       \<lparr>buckets = [Node 2 (12, 20) Leaf (Node 3 (13, 30) Leaf (Node 4 (14, 40) Leaf Leaf))],
        cacheSize = 4\<rparr>)"
  using put_beyond_capacity_missing_return[of 1 4
      "[(1::int, 11::nat, 10), (2, 12, 20), (3, 13, 30), (4, 14, 40), (5, 15, 50)]" nat]
  by (simp add: Cache_init_def put_def removeLRU_def Cache_remove_def func_def hashFunc_def
      Let_def)

text \<open>
  C1, as amended. A \<open>put\<close> that returns, returns \<open>true\<close>. If the key is stored in no node
  of its bucket when \<open>put(key, val)\<close> is called, then \<open>get(key)\<close> returns \<open>(true, val)\<close>
  right after the call, and, in an ordered bucket, after any further calls among which is no
  \<open>put\<close> or \<open>remove\<close> of the key and during which the key is not evicted.
\<close>

theorem put_then_get:
  "length (buckets c) = nb \<and> 0 < nb \<and> put nb cap hashVal t key val c = Inr (ok, c1) \<longrightarrow>
   ok \<and>
   (key \<notin> keys (buckets c ! hashFunc nb hashVal key) \<longrightarrow>
      get nb hashVal dflt key x c1 = (True, val)) \<and>
   (key \<notin> keys (buckets c ! hashFunc nb hashVal key) \<and>
    bst_weak (buckets c ! hashFunc nb hashVal key) \<and>
    Remove key \<notin> set calls \<and> (\<forall>v ts. Put key v ts \<notin> set calls) \<and>
    key \<notin> set (evictions nb cap hashVal calls c1) \<and>
    run nb cap hashVal calls c1 = Inr c' \<longrightarrow>
      get nb hashVal dflt key x c' = (True, val))"
proof (intro impI, elim conjE)
  assume len: "length (buckets c) = nb" and nb: "0 < nb"
    and put: "put nb cap hashVal t key val c = Inr (ok, c1)"
  let ?hv = "hashFunc nb hashVal key"
  let ?b = "buckets c ! ?hv"
  let ?ae = "after_eviction nb cap hashVal c ?hv"
  have hv: "?hv < nb" using nb by (rule hashFunc_less)
  note pb = put_bucket[OF put len hv]
  have b1: "buckets c1 ! ?hv = insertNode ?ae key (val, t)" using pb(3) by simp
  have ae_keys: "keys ?ae \<subseteq> keys ?b"
    using keys_remove_subset[of ?b] by (auto simp: after_eviction_def split: option.splits)
  have ae_weak: "bst_weak ?b \<Longrightarrow> bst_weak ?ae"
    using bst_weak_remove[of ?b] by (auto simp: after_eviction_def split: option.splits)
  have absent: "get nb hashVal dflt key x c1 = (True, val)" if "key \<notin> keys ?b"
  proof -
    have "key \<notin> keys ?ae" using that ae_keys by blast
    then have "getVal ?ae key (dflt, 0) = (False, (dflt, 0))" by (rule getVal_absent)
    then show ?thesis unfolding get_bucket b1 getVal_insertNode_same by simp
  qed
  have frame: "get nb hashVal dflt key x c' = (True, val)"
    if a: "key \<notin> keys ?b" and w: "bst_weak ?b" and nr: "Remove key \<notin> set calls"
      and np: "\<forall>v ts. Put key v ts \<notin> set calls"
      and ne: "key \<notin> set (evictions nb cap hashVal calls c1)"
      and run: "run nb cap hashVal calls c1 = Inr c'"
  proof -
    let ?P = "\<lambda>tr. bst_weak tr \<and> count (mset (map fst (nodes tr))) key = 1 \<and>
        (key, (val, t)) \<in> set (nodes tr)"
    have "key \<notin> keys ?ae" using a ae_keys by blast
    then have "count (mset (map fst (nodes ?ae))) key = 0" by (rule count_keys_absent)
    then have P1: "?P (buckets c1 ! ?hv)"
      unfolding b1 using ae_weak[OF w]
      by (simp add: bst_weak_insertNode count_keys_insertNode set_nodes_insertNode
          del: mset_map)
    have "length (buckets c') = nb \<and> ?P (buckets c' ! ?hv)"
    proof (rule run_bucket_pred[OF run pb(2) hv, where P = ?P, OF P1])
      fix tr e
      assume e: "Remove e \<in> set calls \<or> e \<in> set (evictions nb cap hashVal calls c1)"
        and P: "?P tr"
      from e nr ne have "e \<noteq> key" by auto
      then show "?P (HashTree_remove tr e)"
        using P bst_weak_remove[of tr e] count_keys_remove_other[of tr e key]
          entry_remove_other[of key e tr "(val, t)"]
        by simp
    next
      fix tr k v ts
      assume "Put k v ts \<in> set calls" and P: "?P tr"
      then have "k \<noteq> key" using np by auto
      then show "?P (insertNode tr k (v, ts))"
        using P by (simp add: bst_weak_insertNode count_keys_insertNode set_nodes_insertNode
            del: mset_map)
    qed
    then have "getVal (buckets c' ! ?hv) key (dflt, 0) = (True, (val, t))"
      using getVal_unique[of "buckets c' ! ?hv" key "(val, t)" "(dflt, 0)"] by simp
    then show ?thesis unfolding get_bucket by simp
  qed
  show "ok \<and>
   (key \<notin> keys ?b \<longrightarrow> get nb hashVal dflt key x c1 = (True, val)) \<and>
   (key \<notin> keys ?b \<and> bst_weak ?b \<and>
    Remove key \<notin> set calls \<and> (\<forall>v ts. Put key v ts \<notin> set calls) \<and>
    key \<notin> set (evictions nb cap hashVal calls c1) \<and>
    run nb cap hashVal calls c1 = Inr c' \<longrightarrow>
      get nb hashVal dflt key x c' = (True, val))"
    using pb(1) absent frame by blast
qed

theorem put_then_get_witness:
  "get 1 nat [] (7::int) ''x'' \<lparr>buckets = [Node 7 (''a'', 10) Leaf Leaf], cacheSize = 1\<rparr>
     = (True, ''a'') \<and>
   run 1 4 nat [Put 3 ''c'' 20, Remove 3, Put 9 ''d'' 30]
     \<lparr>buckets = [Node (7::int) (''a'', 10) Leaf Leaf], cacheSize = 1\<rparr>
     = Inr \<lparr>buckets = [Node 7 (''a'', 10) Leaf (Node 9 (''d'', 30) Leaf Leaf)], cacheSize = 2\<rparr> \<and>
   get 1 nat [] (7::int) ''x''
     \<lparr>buckets = [Node 7 (''a'', 10) Leaf (Node 9 (''d'', 30) Leaf Leaf)], cacheSize = 2\<rparr>
     = (True, ''a'')"
  using put_then_get[of "Cache_init 1" 1 4 nat 10 "7::int" "''a''" True
      "\<lparr>buckets = [Node 7 (''a'', 10) Leaf Leaf], cacheSize = 1\<rparr>" "[]" "''x''"
      "[Put 3 ''c'' 20, Remove 3, Put 9 ''d'' 30]"
      "\<lparr>buckets = [Node 7 (''a'', 10) Leaf (Node 9 (''d'', 30) Leaf Leaf)], cacheSize = 2\<rparr>"]
  by (simp add: Cache_init_def put_def Cache_remove_def hashFunc_def evictee_def Let_def)

text \<open>
  The claim C1 as stated fails when the key is already present: after \<open>put(7, a)\<close> and
  \<open>put(7, b)\<close> on a fresh cache, \<open>get(7)\<close> returns \<open>a\<close>.
\<close>

theorem put_overwrite_counterexample:
  "run 1 4 nat [Put (7::int) ''a'' 10, Put 7 ''b'' 20] (Cache_init 1)
     = Inr \<lparr>buckets = [Node 7 (''a'', 10) (Node 7 (''b'', 20) Leaf Leaf) Leaf], cacheSize = 2\<rparr> \<and>
   get 1 nat [] (7::int) ''x''
     \<lparr>buckets = [Node 7 (''a'', 10) (Node 7 (''b'', 20) Leaf Leaf) Leaf], cacheSize = 2\<rparr>
     = (True, ''a'')"
  by (simp add: Cache_init_def put_def get_def hashFunc_def Let_def)

text \<open>
  C5, as amended. \<open>remove\<close> returns \<open>true\<close>. If the key is stored in at most one node of
  its ordered bucket when \<open>remove(key)\<close> is called, then \<open>get(key)\<close> returns \<open>false\<close> with the
  default value after the call and after any further calls among which is no \<open>put\<close> of the
  key.
\<close>

theorem remove_then_get:
  "length (buckets c) = nb \<and> 0 < nb \<and>
   bst_weak (buckets c ! hashFunc nb hashVal key) \<and>
   count (mset (map fst (nodes (buckets c ! hashFunc nb hashVal key)))) key \<le> 1 \<and>
   (\<forall>v ts. Put key v ts \<notin> set calls) \<and>
   run nb cap hashVal (Remove key # calls) c = Inr c' \<longrightarrow>
     fst (Cache_remove nb hashVal key c) \<and> get nb hashVal dflt key x c' = (False, dflt)"
proof (intro impI, elim conjE)
  let ?hv = "hashFunc nb hashVal key"
  let ?b = "buckets c ! ?hv"
  let ?c1 = "snd (Cache_remove nb hashVal key c)"
  assume len: "length (buckets c) = nb" and nb: "0 < nb" and w: "bst_weak ?b"
    and cnt: "count (mset (map fst (nodes ?b))) key \<le> 1"
    and np: "\<forall>v ts. Put key v ts \<notin> set calls"
    and run: "run nb cap hashVal (Remove key # calls) c = Inr c'"
  have hv: "?hv < nb" using nb by (rule hashFunc_less)
  note rb = Cache_remove_bucket[OF len hv, of hashVal key]
  have run1: "run nb cap hashVal calls ?c1 = Inr c'" using run by simp
  have "count (mset (map fst (nodes (HashTree_remove ?b key)))) key = 0"
    using mset_keys_remove[OF w, of key] cnt by simp
  then have "key \<notin> keys (HashTree_remove ?b key)"
    by (simp add: keys_nodes count_eq_zero_iff)
  then have P1: "key \<notin> keys (buckets ?c1 ! ?hv)" using rb(2) by simp
  have "length (buckets c') = nb \<and> key \<notin> keys (buckets c' ! ?hv)"
  proof (rule run_bucket_pred[OF run1 rb(1) hv, where P = "\<lambda>tr. key \<notin> keys tr", OF P1])
    fix tr :: "('a, 'b \<times> int) HashTree" and e assume "key \<notin> keys tr"
    then show "key \<notin> keys (HashTree_remove tr e)" using keys_remove_subset[of tr e] by blast
  next
    fix tr :: "('a, 'b \<times> int) HashTree" and k v ts
    assume "Put k v ts \<in> set calls" and "key \<notin> keys tr"
    then show "key \<notin> keys (insertNode tr k (v, ts))" using np by (auto simp: keys_insertNode)
  qed
  then have "key \<notin> keys (buckets c' ! ?hv)" by simp
  then have "get nb hashVal dflt key x c' = (False, dflt)" by (rule get_absent)
  then show "fst (Cache_remove nb hashVal key c) \<and> get nb hashVal dflt key x c' = (False, dflt)"
    by (simp add: Cache_remove_def Let_def)
qed

theorem remove_then_get_witness:
  "run 1 4 nat [Remove 7, Put 9 ''d'' 30, Remove 5]
     \<lparr>buckets = [Node (7::int) (''a'', 10) (Node 3 (''c'', 20) Leaf Leaf) Leaf], cacheSize = 2\<rparr>
     = Inr \<lparr>buckets = [Node 3 (''c'', 20) Leaf (Node 9 (''d'', 30) Leaf Leaf)], cacheSize = 1\<rparr> \<and>
   get 1 nat [] (7::int) ''x''
     \<lparr>buckets = [Node 3 (''c'', 20) Leaf (Node 9 (''d'', 30) Leaf Leaf)], cacheSize = 1\<rparr>
     = (False, [])"
  using remove_then_get[of
      "\<lparr>buckets = [Node (7::int) (''a'', 10) (Node 3 (''c'', 20) Leaf Leaf) Leaf], cacheSize = 2\<rparr>"
      1 nat 7 "[Put 9 ''d'' 30, Remove 5]" 4
      "\<lparr>buckets = [Node 3 (''c'', 20) Leaf (Node 9 (''d'', 30) Leaf Leaf)], cacheSize = 1\<rparr>"
      "[]" "''x''"]
  by (simp add: put_def Cache_remove_def hashFunc_def Let_def)

text \<open>
  The claim C5 as stated fails when the key was inserted twice: \<open>remove(7)\<close> deletes one
  of the two nodes and \<open>get(7)\<close> finds the other.
\<close>

theorem remove_duplicate_counterexample:
  "run 1 4 nat [Put (7::int) ''a'' 10, Put 7 ''b'' 20, Remove 7] (Cache_init 1)
     = Inr \<lparr>buckets = [Node 7 (''b'', 20) Leaf Leaf], cacheSize = 1\<rparr> \<and>
   fst (Cache_remove 1 nat (7::int)
     \<lparr>buckets = [Node 7 (''a'', 10) (Node 7 (''b'', 20) Leaf Leaf) Leaf], cacheSize = 2\<rparr>) \<and>
   get 1 nat [] (7::int) ''x'' \<lparr>buckets = [Node 7 (''b'', 20) Leaf Leaf], cacheSize = 1\<rparr>
     = (True, ''b'')"
  by (simp add: Cache_init_def put_def get_def Cache_remove_def hashFunc_def Let_def)

end
